theory Spec2Isabelle
  imports Main "HOL-Library.Word" "HOL-Library.Monad_Syntax"
begin

unbundle bit_operations_syntax

section \<open>The hash-string codec of phc-sf-parse.c\<close>

text \<open>
  A shallow embedding of \<^verbatim>\<open>src/phc-sf-parse.c\<close>: the constant-time comparison macros, the
  Base64 character maps, \<^verbatim>\<open>to_base64\<close>, \<^verbatim>\<open>from_base64\<close>, \<^verbatim>\<open>decode_decimal\<close>,
  \<^verbatim>\<open>argon2i_decode_string\<close> and \<^verbatim>\<open>argon2i_encode_string\<close>.

  Integer types follow the LP64 data model: \<^verbatim>\<open>unsigned\<close> is a 32-bit word,
  \<^verbatim>\<open>unsigned long\<close> a 64-bit word, \<^verbatim>\<open>unsigned char\<close> an 8-bit word. Values of type
  \<^verbatim>\<open>size_t\<close> and the bit counters \<^verbatim>\<open>acc_len\<close> are natural numbers: they count bytes
  and bits of buffers that exist, and no operation of the source on them wraps around
  (each subtraction is guarded by the comparison before it). An \<^verbatim>\<open>int\<close> that holds a
  character is a HOL integer; plain \<^verbatim>\<open>char\<close> is signed, as on x86-64, so that the byte
  \<open>0x80\<close> read through \<^verbatim>\<open>*src\<close> is the integer \<open>-128\<close>.

  A pointer into a C string is the list of the characters from the pointer up to the
  terminating zero: \<^verbatim>\<open>*str\<close> is \<open>peek str\<close> (the zero character on the empty list),
  \<^verbatim>\<open>str ++\<close> is the tail. Two pointers into one string are equal when the lists are.
  A destination buffer of bytes is a list that is updated by index; a destination buffer
  of characters is the text written into it so far, without the terminating zero that
  each write puts behind it.
\<close>

subsection \<open>Types and conversions\<close>

type_synonym uchar = "8 word"
type_synonym uint = "32 word"
type_synonym ulong = "64 word"

text \<open>The value of a plain (signed) \<^verbatim>\<open>char\<close> converted to \<^verbatim>\<open>int\<close>.\<close>

definition char_to_int :: "char \<Rightarrow> int" where
  "char_to_int c = (if of_char c < (128::nat) then int (of_char c) else int (of_char c) - 256)"

text \<open>Storing an \<^verbatim>\<open>int\<close> result through a \<^verbatim>\<open>char *\<close>: the low eight bits.\<close>

definition int_to_char :: "uint \<Rightarrow> char" where
  "int_to_char x = char_of (unat x)"

definition peek :: "string \<Rightarrow> char" where
  "peek s = (case s of [] \<Rightarrow> CHR 0x00 | c # _ \<Rightarrow> c)"

subsection \<open>Constant-time comparisons and the Base64 character maps\<close>

text \<open>
  The macros \<^verbatim>\<open>EQ\<close>, \<^verbatim>\<open>GT\<close>, \<^verbatim>\<open>GE\<close>, \<^verbatim>\<open>LT\<close>, \<^verbatim>\<open>LE\<close>: both arguments are cast to
  \<^verbatim>\<open>unsigned\<close>, the result is \<open>0xFF\<close> for true and \<open>0x00\<close> for false.
\<close>

definition EQ :: "uint \<Rightarrow> uint \<Rightarrow> uint" where
  "EQ x y = ((drop_bit 8 (- (x XOR y))) AND 0xFF) XOR 0xFF"

definition GT :: "uint \<Rightarrow> uint \<Rightarrow> uint" where
  "GT x y = (drop_bit 8 (y - x)) AND 0xFF"

definition GE :: "uint \<Rightarrow> uint \<Rightarrow> uint" where
  "GE x y = GT y x XOR 0xFF"

definition LT :: "uint \<Rightarrow> uint \<Rightarrow> uint" where
  "LT x y = GT y x"

definition LE :: "uint \<Rightarrow> uint \<Rightarrow> uint" where
  "LE x y = GE y x"

definition b64_byte_to_char :: "uint \<Rightarrow> uint" where
  "b64_byte_to_char x =
     (LT x 26 AND (x + 65))
     OR (GE x 26 AND LT x 52 AND (x + (97 - 26)))
     OR (GE x 52 AND LT x 62 AND (x + (48 - 52)))
     OR (EQ x 62 AND 43) OR (EQ x 63 AND 47)"

text \<open>
  The argument of \<^verbatim>\<open>b64_char_to_byte\<close> is an \<^verbatim>\<open>int\<close>; every use of it is cast to, or
  combined with, an \<^verbatim>\<open>unsigned\<close>, which is \<open>word_of_int\<close>.
\<close>

definition b64_char_to_byte :: "int \<Rightarrow> uint" where
  "b64_char_to_byte ci =
     (let c = (word_of_int ci :: uint);
          x = (GE c 65 AND LE c 90 AND (c - 65))
              OR (GE c 97 AND LE c 122 AND (c - (97 - 26)))
              OR (GE c 48 AND LE c 57 AND (c - (48 - 52)))
              OR (EQ c 43 AND 62) OR (EQ c 47 AND 63)
      in x OR (EQ x 0 AND (EQ c 65 XOR 0xFF)))"

text \<open>
  The mapping that the comment of \<^verbatim>\<open>b64_char_to_byte\<close> specifies, on character codes:
  the 6-bit value of an alphabet character, \<open>0xFF\<close> for any other.
\<close>

definition b64_value :: "int \<Rightarrow> uint" where
  "b64_value c =
     (if 65 \<le> c \<and> c \<le> 90 then word_of_int (c - 65)
      else if 97 \<le> c \<and> c \<le> 122 then word_of_int (c - 71)
      else if 48 \<le> c \<and> c \<le> 57 then word_of_int (c + 4)
      else if c = 43 then 62
      else if c = 47 then 63
      else 0xFF)"

subsection \<open>Base64 encoding\<close>

text \<open>The inner loop of \<^verbatim>\<open>to_base64\<close>: \<^verbatim>\<open>while (acc_len >= 6)\<close>.\<close>

function to_base64_emit :: "uint \<Rightarrow> nat \<Rightarrow> string \<Rightarrow> nat \<times> string" where
  "to_base64_emit acc acc_len dst =
     (if acc_len \<ge> 6
      then to_base64_emit acc (acc_len - 6)
             (dst @ [int_to_char (b64_byte_to_char (drop_bit (acc_len - 6) acc AND 0x3F))])
      else (acc_len, dst))"
  by pat_completeness auto
termination
  by (relation "measure (\<lambda>(acc, acc_len, dst). acc_len)") auto

declare to_base64_emit.simps [simp del]

text \<open>The outer loop, \<^verbatim>\<open>while (src_len -- > 0)\<close>, over the bytes that are left.\<close>

fun to_base64_loop :: "uint \<Rightarrow> nat \<Rightarrow> uchar list \<Rightarrow> string \<Rightarrow> uint \<times> nat \<times> string" where
  "to_base64_loop acc acc_len [] dst = (acc, acc_len, dst)"
| "to_base64_loop acc acc_len (b # buf) dst =
     (let acc' = push_bit 8 acc + ucast b;
          (acc_len', dst') = to_base64_emit acc' (acc_len + 8) dst
      in to_base64_loop acc' acc_len' buf dst')"

text \<open>
  \<^verbatim>\<open>to_base64 dst_len src\<close>, where \<open>src\<close> holds the \<^verbatim>\<open>src_len\<close> bytes to encode:
  \<open>None\<close> is the result \<^verbatim>\<open>(size_t)-1\<close>, \<open>Some (olen, text)\<close> the returned length and
  the characters written before the terminating zero.
\<close>

definition to_base64 :: "nat \<Rightarrow> uchar list \<Rightarrow> (nat \<times> string) option" where
  "to_base64 dst_len src =
     (let src_len = length src;
          olen = push_bit 2 (src_len div 3);
          olen = (if src_len mod 3 = 2 then olen + 1 + 2
                  else if src_len mod 3 = 1 then olen + 2
                  else olen)
      in if dst_len \<le> olen then None
         else (let (acc, acc_len, dst) = to_base64_loop 0 0 src [];
                   dst = (if acc_len > 0
                          then dst @ [int_to_char (b64_byte_to_char
                                        (push_bit (6 - acc_len) acc AND 0x3F))]
                          else dst)
               in Some (olen, dst)))"

subsection \<open>Base64 decoding\<close>

text \<open>
  The loop of \<^verbatim>\<open>from_base64\<close>. The result holds the buffer, the number of bytes
  stored into it and either \<open>None\<close>, when the loop left through \<^verbatim>\<open>return NULL\<close>
  (capacity exceeded), or the accumulator, its bit count and the source pointer at the
  \<^verbatim>\<open>break\<close>. The number of bytes stored is the counter \<^verbatim>\<open>len\<close> at the \<^verbatim>\<open>break\<close>; at
  \<^verbatim>\<open>return NULL\<close> it is the value that \<^verbatim>\<open>len ++\<close> compared with the capacity. On the
  empty list \<^verbatim>\<open>*src\<close> is the terminating zero, which \<^verbatim>\<open>b64_char_to_byte\<close> maps to
  \<open>0xFF\<close> (lemma \<open>b64_char_to_byte_NUL\<close>).
\<close>

fun from_base64_loop ::
  "uchar list \<Rightarrow> nat \<Rightarrow> nat \<Rightarrow> uint \<Rightarrow> nat \<Rightarrow> string
     \<Rightarrow> uchar list \<times> nat \<times> (uint \<times> nat \<times> string) option" where
  "from_base64_loop buf cap len acc acc_len [] = (buf, len, Some (acc, acc_len, []))"
| "from_base64_loop buf cap len acc acc_len (c # src) =
     (let d = b64_char_to_byte (char_to_int c) in
      if d = 0xFF then (buf, len, Some (acc, acc_len, c # src))
      else (let acc' = push_bit 6 acc + d;
                acc_len' = acc_len + 6
            in if acc_len' \<ge> 8
               then (if len \<ge> cap then (buf, len, None)
                     else from_base64_loop
                            (buf[len := ucast (drop_bit (acc_len' - 8) acc' AND 0xFF)])
                            cap (len + 1) acc' (acc_len' - 8) src)
               else from_base64_loop buf cap len acc' acc_len' src))"

text \<open>
  \<^verbatim>\<open>from_base64 dst dst_len src\<close> returns the buffer, the final value of \<^verbatim>\<open>*dst_len\<close>
  and the returned pointer (\<open>None\<close> for \<^verbatim>\<open>NULL\<close>).
\<close>

definition from_base64 :: "uchar list \<Rightarrow> nat \<Rightarrow> string \<Rightarrow> uchar list \<times> nat \<times> string option" where
  "from_base64 dst dst_len src =
     (case from_base64_loop dst dst_len 0 0 0 src of
        (buf, len, None) \<Rightarrow> (buf, dst_len, None)
      | (buf, len, Some (acc, acc_len, src')) \<Rightarrow>
          if acc_len > 4 \<or> (acc AND (push_bit acc_len 1 - 1)) \<noteq> 0
          then (buf, dst_len, None)
          else (buf, len, Some src'))"

subsection \<open>Decimal integers\<close>

definition ULONG_MAX :: ulong where
  "ULONG_MAX = - 1"

fun decode_decimal_loop :: "ulong \<Rightarrow> string \<Rightarrow> (ulong \<times> string) option" where
  "decode_decimal_loop acc [] = Some (acc, [])"
| "decode_decimal_loop acc (ch # str) =
     (let c = char_to_int ch in
      if c < 48 \<or> c > 57 then Some (acc, ch # str)
      else (let c = c - 48 in
            if acc > ULONG_MAX div 10 then None
            else (let acc = acc * 10 in
                  if word_of_int c > ULONG_MAX - acc then None
                  else decode_decimal_loop (acc + word_of_int c) str)))"

definition decode_decimal :: "string \<Rightarrow> (ulong \<times> string) option" where
  "decode_decimal orig =
     (case decode_decimal_loop 0 orig of
        None \<Rightarrow> None
      | Some (acc, str) \<Rightarrow>
          if str = orig \<or> (peek orig = CHR ''0'' \<and> str \<noteq> tl orig) then None
          else Some (acc, str))"

subsection \<open>Argon2i hash strings\<close>

text \<open>
  The structure \<^verbatim>\<open>argon2i_params\<close>. The four arrays are lists (of length 8, 32, 48 and
  64 in a well-formed structure); the field \<^verbatim>\<open>output\<close> is \<open>output'\<close> here.
\<close>

record argon2i_params =
  m :: ulong
  t :: ulong
  p :: ulong
  key_id :: "uchar list"
  key_id_len :: nat
  associated_data :: "uchar list"
  associated_data_len :: nat
  salt :: "uchar list"
  salt_len :: nat
  output' :: "uchar list"
  output_len :: nat

text \<open>
  The macro \<^verbatim>\<open>CC\<close>: \<open>None\<close> when \<^verbatim>\<open>strncmp\<close> finds a difference (the function returns
  0), otherwise the advanced pointer. The prefixes hold no zero character, so that
  \<^verbatim>\<open>strncmp(str, prefix, strlen(prefix))\<close> is 0 exactly when the string starts with the
  prefix.
\<close>

definition CC :: "string \<Rightarrow> string \<Rightarrow> string option" where
  "CC prefix str =
     (if take (length prefix) str \<noteq> prefix then None else Some (drop (length prefix) str))"

text \<open>
  \<^verbatim>\<open>argon2i_decode_string\<close> works on the caller's structure in place and returns 0 or 1.
  The model returns the returned value together with the structure as the call leaves
  it. The body is cut into the stages of the source, last stage first; each function is
  the rest of the body from its stage on. The macro \<^verbatim>\<open>BIN\<close> passes the array of the
  structure to \<^verbatim>\<open>from_base64\<close>, which writes into it also when it fails; the length
  field is assigned on success only.
\<close>

definition decode_output :: "argon2i_params \<Rightarrow> string \<Rightarrow> int \<times> argon2i_params" where
  "decode_output pp str =
     (case CC ''$'' str of None \<Rightarrow> (0, pp) | Some str \<Rightarrow>
      (case from_base64 (output' pp) 64 str of
         (buf, bin_len, None) \<Rightarrow> (0, pp\<lparr>output' := buf\<rparr>)
       | (buf, bin_len, Some str) \<Rightarrow>
           (let pp = pp\<lparr>output' := buf, output_len := bin_len\<rparr> in
            if output_len pp < 12 then (0, pp)
            else (if peek str = CHR 0x00 then 1 else 0, pp))))"

definition decode_salt :: "argon2i_params \<Rightarrow> string \<Rightarrow> int \<times> argon2i_params" where
  "decode_salt pp str =
     (if peek str = CHR 0x00 then (1, pp)
      else
      (case CC ''$'' str of None \<Rightarrow> (0, pp) | Some str \<Rightarrow>
      (case from_base64 (salt pp) 48 str of
         (buf, bin_len, None) \<Rightarrow> (0, pp\<lparr>salt := buf\<rparr>)
       | (buf, bin_len, Some str) \<Rightarrow>
           (let pp = pp\<lparr>salt := buf, salt_len := bin_len\<rparr> in
            if salt_len pp < 8 then (0, pp)
            else if peek str = CHR 0x00 then (1, pp)
            else decode_output pp str))))"

definition decode_data :: "argon2i_params \<Rightarrow> string \<Rightarrow> int \<times> argon2i_params" where
  "decode_data pp str =
     (case CC '',data='' str of None \<Rightarrow> decode_salt pp str | Some str \<Rightarrow>
      (case from_base64 (associated_data pp) 32 str of
         (buf, bin_len, None) \<Rightarrow> (0, pp\<lparr>associated_data := buf\<rparr>)
       | (buf, bin_len, Some str) \<Rightarrow>
           decode_salt (pp\<lparr>associated_data := buf, associated_data_len := bin_len\<rparr>) str))"

definition decode_keyid :: "argon2i_params \<Rightarrow> string \<Rightarrow> int \<times> argon2i_params" where
  "decode_keyid pp str =
     (case CC '',keyid='' str of None \<Rightarrow> decode_data pp str | Some str \<Rightarrow>
      (case from_base64 (key_id pp) 8 str of
         (buf, bin_len, None) \<Rightarrow> (0, pp\<lparr>key_id := buf\<rparr>)
       | (buf, bin_len, Some str) \<Rightarrow>
           decode_data (pp\<lparr>key_id := buf, key_id_len := bin_len\<rparr>) str))"

text \<open>The range checks on \<^verbatim>\<open>m\<close>, \<^verbatim>\<open>t\<close> and \<^verbatim>\<open>p\<close>.\<close>

definition decode_check :: "argon2i_params \<Rightarrow> string \<Rightarrow> int \<times> argon2i_params" where
  "decode_check pp str =
     (if m pp < 1 \<or> drop_bit 30 (m pp) > 3 then (0, pp)
      else if t pp < 1 \<or> drop_bit 30 (t pp) > 3 then (0, pp)
      else if p pp < 1 \<or> p pp > 255 then (0, pp)
      else if m pp < push_bit 3 (p pp) then (0, pp)
      else decode_keyid pp str)"

definition argon2i_decode_string :: "argon2i_params \<Rightarrow> string \<Rightarrow> int \<times> argon2i_params" where
  "argon2i_decode_string pp0 str0 =
    (let pp = pp0\<lparr>key_id_len := 0, associated_data_len := 0, salt_len := 0, output_len := 0\<rparr> in
     (case CC ''$argon2i'' str0 of None \<Rightarrow> (0, pp) | Some str \<Rightarrow>
     (case CC ''$m='' str of None \<Rightarrow> (0, pp) | Some str \<Rightarrow>
     (case decode_decimal str of None \<Rightarrow> (0, pp) | Some (dec_x, str) \<Rightarrow>
     (let pp = pp\<lparr>m := dec_x\<rparr> in
     (case CC '',t='' str of None \<Rightarrow> (0, pp) | Some str \<Rightarrow>
     (case decode_decimal str of None \<Rightarrow> (0, pp) | Some (dec_x, str) \<Rightarrow>
     (let pp = pp\<lparr>t := dec_x\<rparr> in
     (case CC '',p='' str of None \<Rightarrow> (0, pp) | Some str \<Rightarrow>
     (case decode_decimal str of None \<Rightarrow> (0, pp) | Some (dec_x, str) \<Rightarrow>
     decode_check (pp\<lparr>p := dec_x\<rparr>) str))))))))))"

subsection \<open>Encoding\<close>

text \<open>
  \<^verbatim>\<open>sprintf(tmp, "%lu", x)\<close> is a function of the C library: it writes the decimal digits
  of \<open>x\<close>, most significant first, without leading zeros (one digit for 0). At most 20
  digits are written for a 64-bit value, so that the 30 characters of \<^verbatim>\<open>tmp\<close> suffice.
\<close>

function dec_digits :: "nat \<Rightarrow> string" where
  "dec_digits n =
     (if n < 10 then [char_of (48 + n)]
      else dec_digits (n div 10) @ [char_of (48 + n mod 10)])"
  by pat_completeness auto
termination
  by (relation "measure id") auto

declare dec_digits.simps [simp del]

definition sprintf_lu :: "ulong \<Rightarrow> string" where
  "sprintf_lu x = dec_digits (unat x)"

text \<open>
  The state of \<^verbatim>\<open>argon2i_encode_string\<close> is the text written so far and the remaining
  capacity \<^verbatim>\<open>dst_len\<close>. Each of the macros \<^verbatim>\<open>SS\<close>, \<^verbatim>\<open>SX\<close> and \<^verbatim>\<open>SB\<close> either makes the
  function return 0 (\<open>None\<close>) or goes on with the new state. \<^verbatim>\<open>SB(buf, len)\<close> encodes the
  first \<open>len\<close> bytes of the array and moves the pointer by the returned length, which is
  the number of characters written (lemma \<open>to_base64_length\<close>).
\<close>

definition SS :: "string \<Rightarrow> string \<times> nat \<Rightarrow> (string \<times> nat) option" where
  "SS str st =
     (case st of (dst, dst_len) \<Rightarrow>
        let pp_len = length str in
        if pp_len \<ge> dst_len then None
        else Some (dst @ str, dst_len - pp_len))"

definition SX :: "ulong \<Rightarrow> string \<times> nat \<Rightarrow> (string \<times> nat) option" where
  "SX x st = SS (sprintf_lu x) st"

definition SB :: "uchar list \<Rightarrow> nat \<Rightarrow> string \<times> nat \<Rightarrow> (string \<times> nat) option" where
  "SB buf len st =
     (case st of (dst, dst_len) \<Rightarrow>
        (case to_base64 dst_len (take len buf) of
           None \<Rightarrow> None
         | Some (sb_len, text) \<Rightarrow> Some (dst @ text, dst_len - sb_len)))"

text \<open>
  \<^verbatim>\<open>argon2i_encode_string dst_len pp\<close>: \<open>None\<close> when the function returns 0, \<open>Some s\<close> when
  it returns 1 and leaves the zero-terminated string \<open>s\<close> in the buffer.
\<close>

definition argon2i_encode_string :: "nat \<Rightarrow> argon2i_params \<Rightarrow> string option" where
  "argon2i_encode_string dst_len pp =
     do {
       st \<leftarrow> SS ''$argon2i$m='' ([], dst_len);
       st \<leftarrow> SX (m pp) st;
       st \<leftarrow> SS '',t='' st;
       st \<leftarrow> SX (t pp) st;
       st \<leftarrow> SS '',p='' st;
       st \<leftarrow> SX (p pp) st;
       st \<leftarrow> (if key_id_len pp > 0
             then do { st \<leftarrow> SS '',keyid='' st; SB (key_id pp) (key_id_len pp) st }
             else Some st);
       st \<leftarrow> (if associated_data_len pp > 0
             then do { st \<leftarrow> SS '',data='' st;
                       SB (associated_data pp) (associated_data_len pp) st }
             else Some st);
       if salt_len pp = 0 then Some (fst st)
       else do {
         st \<leftarrow> SS ''$'' st;
         st \<leftarrow> SB (salt pp) (salt_len pp) st;
         if output_len pp = 0 then Some (fst st)
         else do {
           st \<leftarrow> SS ''$'' st;
           st \<leftarrow> SB (output' pp) (output_len pp) st;
           Some (fst st)
         }
       }
     }"

subsection \<open>Reference notions for the properties\<close>

text \<open>A structure as a zero-initialised declaration gives it.\<close>

definition params0 :: argon2i_params where
  "params0 = \<lparr>m = 0, t = 0, p = 0,
     key_id = replicate 8 0, key_id_len = 0,
     associated_data = replicate 32 0, associated_data_len = 0,
     salt = replicate 48 0, salt_len = 0,
     output' = replicate 64 0, output_len = 0\<rparr>"

text \<open>
  The Base64 run at the start of a string: the longest prefix of characters of the
  Base64 alphabet, which are the characters that \<open>b64_value\<close> maps to a 6-bit value.
\<close>

definition b64_run :: "string \<Rightarrow> string" where
  "b64_run src = takeWhile (\<lambda>c. b64_value (char_to_int c) \<noteq> 0xFF) src"

text \<open>
  Decimal digits, and the number that a string of digits denotes, most significant digit
  first.
\<close>

definition is_digit :: "char \<Rightarrow> bool" where
  "is_digit c \<longleftrightarrow> 48 \<le> char_to_int c \<and> char_to_int c \<le> 57"

definition dec_value :: "string \<Rightarrow> nat" where
  "dec_value ds = foldl (\<lambda>a c. 10 * a + nat (char_to_int c - 48)) 0 ds"

text \<open>
  The characters that \<^verbatim>\<open>to_base64\<close> writes for the bytes \<open>src\<close> when its loop starts with
  the accumulator \<open>acc\<close> and no buffered bits: the characters of the loop and the
  character for the bits that remain.
\<close>

definition to_base64_text :: "uint \<Rightarrow> uchar list \<Rightarrow> string" where
  "to_base64_text acc src =
     (let (acc, acc_len, dst) = to_base64_loop acc 0 src []
      in if acc_len > 0
         then dst @ [int_to_char (b64_byte_to_char (push_bit (6 - acc_len) acc AND 0x3F))]
         else dst)"

text \<open>The length that \<^verbatim>\<open>to_base64\<close> computes for \<open>n\<close> bytes.\<close>

definition b64_length :: "nat \<Rightarrow> nat" where
  "b64_length n = 4 * (n div 3) + (if n mod 3 = 2 then 3 else if n mod 3 = 1 then 2 else 0)"

text \<open>
  The groups of three bytes that become four characters each; the last group holds the
  zero, one or two bytes that remain.
\<close>

fun triples :: "'a list \<Rightarrow> 'a list list" where
  "triples (a # b # c # xs) = [a, b, c] # triples xs"
| "triples [] = [[]]"
| "triples [a] = [[a]]"
| "triples [a, b] = [[a, b]]"

text \<open>
  The Data Model invariants of the specification, together with the sizes that the C
  type gives the four arrays.
\<close>

definition array_sizes :: "argon2i_params \<Rightarrow> bool" where
  "array_sizes pp \<longleftrightarrow>
     length (key_id pp) = 8 \<and> length (associated_data pp) = 32
     \<and> length (salt pp) = 48 \<and> length (output' pp) = 64"

definition valid_params :: "argon2i_params \<Rightarrow> bool" where
  "valid_params r \<longleftrightarrow>
     array_sizes r
     \<and> 1 \<le> unat (m r) \<and> unat (m r) \<le> 2 ^ 32 - 1
     \<and> 1 \<le> unat (t r) \<and> unat (t r) \<le> 2 ^ 32 - 1
     \<and> 1 \<le> unat (p r) \<and> unat (p r) \<le> 255
     \<and> 8 * unat (p r) \<le> unat (m r)
     \<and> key_id_len r \<le> 8
     \<and> associated_data_len r \<le> 32
     \<and> (salt_len r = 0 \<or> 8 \<le> salt_len r \<and> salt_len r \<le> 48)
     \<and> (output_len r = 0 \<or> 12 \<le> output_len r \<and> output_len r \<le> 64)
     \<and> (output_len r = 0 \<or> 0 < salt_len r)"

text \<open>
  The byte sequences of a structure, as the Data Model has them: the first
  \<open>key_id_len\<close> bytes of the array \<open>key_id\<close>, and so on. Two structures hold the same
  record when their numbers and their byte sequences agree; the bytes of an array
  behind its length are not part of the record.
\<close>

definition key_id_bytes :: "argon2i_params \<Rightarrow> uchar list" where
  "key_id_bytes r = take (key_id_len r) (key_id r)"

definition associated_data_bytes :: "argon2i_params \<Rightarrow> uchar list" where
  "associated_data_bytes r = take (associated_data_len r) (associated_data r)"

definition salt_bytes :: "argon2i_params \<Rightarrow> uchar list" where
  "salt_bytes r = take (salt_len r) (salt r)"

definition output_bytes :: "argon2i_params \<Rightarrow> uchar list" where
  "output_bytes r = take (output_len r) (output' r)"

definition same_record :: "argon2i_params \<Rightarrow> argon2i_params \<Rightarrow> bool" where
  "same_record r r' \<longleftrightarrow>
     m r = m r' \<and> t r = t r' \<and> p r = p r'
     \<and> key_id_len r = key_id_len r' \<and> key_id_bytes r = key_id_bytes r'
     \<and> associated_data_len r = associated_data_len r'
     \<and> associated_data_bytes r = associated_data_bytes r'
     \<and> salt_len r = salt_len r' \<and> salt_bytes r = salt_bytes r'
     \<and> output_len r = output_len r' \<and> output_bytes r = output_bytes r'"

text \<open>
  The text of a structure according to the grammar: the salt and output segments, the
  optional segments, and the whole string.
\<close>

definition salt_text :: "argon2i_params \<Rightarrow> string" where
  "salt_text r =
     (if salt_len r = 0 then []
      else ''$'' @ to_base64_text 0 (salt_bytes r)
           @ (if output_len r = 0 then []
              else ''$'' @ to_base64_text 0 (output_bytes r)))"

definition data_text :: "argon2i_params \<Rightarrow> string" where
  "data_text r =
     (if associated_data_len r > 0
      then '',data='' @ to_base64_text 0 (associated_data_bytes r) else [])"

definition keyid_text :: "argon2i_params \<Rightarrow> string" where
  "keyid_text r =
     (if key_id_len r > 0 then '',keyid='' @ to_base64_text 0 (key_id_bytes r) else [])"

definition encode_text :: "argon2i_params \<Rightarrow> string" where
  "encode_text r =
     ''$argon2i$m='' @ sprintf_lu (m r) @ '',t='' @ sprintf_lu (t r)
     @ '',p='' @ sprintf_lu (p r) @ keyid_text r @ data_text r @ salt_text r"

text \<open>A buffer after the bytes \<open>bs\<close> were stored at its start.\<close>

definition store :: "uchar list \<Rightarrow> uchar list \<Rightarrow> uchar list" where
  "store bs buf = bs @ drop (length bs) buf"

text \<open>
  The structure that decoding the text of \<open>r\<close> leaves in the structure \<open>pp0\<close> of the
  caller: the numbers and lengths of \<open>r\<close>, and the byte sequences of \<open>r\<close> stored at the
  start of the arrays of \<open>pp0\<close>.
\<close>

definition decoded :: "argon2i_params \<Rightarrow> argon2i_params \<Rightarrow> argon2i_params" where
  "decoded pp0 r =
     pp0\<lparr>m := m r, t := t r, p := p r,
         key_id := store (key_id_bytes r) (key_id pp0), key_id_len := key_id_len r,
         associated_data := store (associated_data_bytes r) (associated_data pp0),
         associated_data_len := associated_data_len r,
         salt := store (salt_bytes r) (salt pp0), salt_len := salt_len r,
         output' := store (output_bytes r) (output' pp0), output_len := output_len r\<rparr>"


text \<open>
  A structure with a key identifier of 6 bytes, a salt of 8 bytes and an output of 12
  bytes, from the test vectors of the source.
\<close>

definition example_params :: argon2i_params where
  "example_params = \<lparr>m = 120, t = 5000, p = 2,
     key_id = [30, 62, 126, 118, 194, 180, 0, 0], key_id_len = 6,
     associated_data = replicate 32 0, associated_data_len = 0,
     salt = [252, 187, 69, 140, 126, 107, 84, 191] @ replicate 40 0, salt_len = 8,
     output' = [18, 64, 150, 95, 170, 82, 78, 165, 171, 186, 36, 116] @ replicate 52 0,
     output_len = 12\<rparr>"

section \<open>The character maps\<close>

text \<open>
  On the character codes 0 to 255, the range that the comparison macros are documented
  for, \<^verbatim>\<open>b64_char_to_byte\<close> is the specified mapping. The 256 cases are evaluated.
\<close>

lemma b64_char_to_byte_table:
  "list_all (\<lambda>c. b64_char_to_byte c = b64_value c) [0..255]"
  by code_simp

lemma b64_char_to_byte_byte:
  assumes "0 \<le> c" and "c \<le> 255"
  shows "b64_char_to_byte c = b64_value c"
  using assms b64_char_to_byte_table by (simp add: list_all_iff)

text \<open>
  Outside that range the macro \<^verbatim>\<open>EQ\<close> is wrong: for a negative \<open>c\<close> of a signed
  \<^verbatim>\<open>char\<close>, \<open>c XOR 43\<close> has all its high bits set, its negation is below 256, and
  \<^verbatim>\<open>EQ(c, '+')\<close> and \<^verbatim>\<open>EQ(c, '/')\<close> both report equality.
\<close>

lemma b64_char_to_byte_signed_table:
  "list_all (\<lambda>c. b64_char_to_byte c = 63) [- 128..- 1]"
  by code_simp

text \<open>
  Claim C8 (code evaluated at the failing input). The claim says that
  \<^verbatim>\<open>b64_char_to_byte\<close> returns the sentinel \<open>0xFF\<close> for every character outside the
  Base64 alphabet, as the comment of the function does. For the character \<open>-128\<close>, the
  value of the byte \<open>0x80\<close> in a signed \<^verbatim>\<open>char\<close>, which \<^verbatim>\<open>from_base64\<close> passes as
  \<^verbatim>\<open>*src\<close>, the function returns 63, the value of the character \<open>/\<close>, although the
  specified mapping gives \<open>0xFF\<close> there.
\<close>

theorem b64_char_to_byte_negative:
  "b64_char_to_byte (- 128) = 63 \<and> b64_value (- 128) = 0xFF
   \<and> b64_char_to_byte (char_to_int (CHR 0x80)) = 63"
  by (simp add: b64_char_to_byte_def b64_value_def char_to_int_def EQ_def GT_def GE_def LT_def LE_def)

section \<open>The strict decimal parser\<close>

lemma unat_ULONG_MAX: "unat ULONG_MAX = 18446744073709551615"
  by (simp add: ULONG_MAX_def unsigned_minus_1_eq_mask mask_eq_exp_minus_1)

lemma unat_ULONG_MAX_div: "unat (ULONG_MAX div 10) = 1844674407370955161"
  by (simp add: unat_div unat_ULONG_MAX)

lemma unat_digit: "0 \<le> c \<Longrightarrow> c \<le> 9 \<Longrightarrow> unat (word_of_int c :: ulong) = nat c"
  by (simp add: unat_eq_nat_uint uint_word_of_int take_bit_int_eq_self)

text \<open>
  The loop of \<^verbatim>\<open>decode_decimal\<close> computes the value of the digits it reads, starting from
  the accumulator, and fails exactly when that value exceeds \<^verbatim>\<open>ULONG_MAX\<close>: a prefix whose
  value is too large makes every longer run too large.
\<close>

lemma foldl_digits_mono:
  "a \<le> foldl (\<lambda>a c. 10 * a + nat (char_to_int c - 48)) a ds"
proof (induction ds arbitrary: a)
  case Nil
  show ?case by simp
next
  case (Cons c ds)
  have "a \<le> 10 * a + nat (char_to_int c - 48)" by simp
  also have "\<dots> \<le> foldl (\<lambda>a c. 10 * a + nat (char_to_int c - 48))
                     (10 * a + nat (char_to_int c - 48)) ds"
    by (rule Cons.IH)
  finally show ?case by simp
qed

lemma decode_decimal_loop_value:
  "decode_decimal_loop acc s =
     (if foldl (\<lambda>a c. 10 * a + nat (char_to_int c - 48)) (unat acc) (takeWhile is_digit s)
           \<le> unat ULONG_MAX
      then Some (word_of_nat (foldl (\<lambda>a c. 10 * a + nat (char_to_int c - 48)) (unat acc)
                   (takeWhile is_digit s)),
                 dropWhile is_digit s)
      else None)"
proof (induction s arbitrary: acc)
  case Nil
  have "unat acc \<le> unat ULONG_MAX"
    using unsigned_less [of acc, where 'a = nat] by (simp add: unat_ULONG_MAX)
  then show ?case by simp
next
  case (Cons ch s)
  let ?f = "\<lambda>a c. 10 * a + nat (char_to_int c - 48)"
  have accb: "unat acc \<le> unat ULONG_MAX"
    using unsigned_less [of acc, where 'a = nat] by (simp add: unat_ULONG_MAX)
  show ?case
  proof (cases "is_digit ch")
    case False
    then have "char_to_int ch < 48 \<or> char_to_int ch > 57" by (auto simp: is_digit_def)
    with False accb show ?thesis by (simp add: Let_def)
  next
    case True
    define d where "d = char_to_int ch - 48"
    from True have d: "0 \<le> d" "d \<le> 9" and nd: "\<not> (char_to_int ch < 48 \<or> char_to_int ch > 57)"
      by (auto simp: is_digit_def d_def)
    have ud: "unat (word_of_int d :: ulong) = nat d" using d by (rule unat_digit)
    have fold: "foldl ?f (unat acc) (takeWhile is_digit (ch # s))
                = foldl ?f (10 * unat acc + nat d) (takeWhile is_digit s)"
      using True by (simp add: d_def)
    have mono: "10 * unat acc + nat d \<le> foldl ?f (10 * unat acc + nat d) (takeWhile is_digit s)"
      by (rule foldl_digits_mono)
    show ?thesis
    proof (cases "acc > ULONG_MAX div 10")
      case big: True
      then have "unat acc > 1844674407370955161"
        by (simp add: word_less_nat_alt unat_ULONG_MAX_div)
      with mono have "\<not> foldl ?f (10 * unat acc + nat d) (takeWhile is_digit s) \<le> unat ULONG_MAX"
        by (simp add: unat_ULONG_MAX)
      with big nd fold show ?thesis by (simp add: Let_def)
    next
      case small: False
      then have a: "unat acc \<le> 1844674407370955161"
        by (simp add: word_less_nat_alt unat_ULONG_MAX_div)
      then have "unat acc * unat (10 :: ulong) < 2 ^ LENGTH(64)" by simp
      then have m10: "unat (acc * 10) = unat acc * 10"
        by (simp add: unat_mult_lem [THEN iffD1])
      have "acc * 10 \<le> ULONG_MAX" by (simp add: ULONG_MAX_def)
      then have sub: "unat (ULONG_MAX - acc * 10) = unat ULONG_MAX - unat acc * 10"
        by (simp add: unat_sub m10)
      show ?thesis
      proof (cases "(word_of_int d :: ulong) > ULONG_MAX - acc * 10")
        case over: True
        then have "nat d > unat ULONG_MAX - unat acc * 10"
          by (simp add: word_less_nat_alt sub ud)
        with a have "10 * unat acc + nat d > unat ULONG_MAX"
          by (simp add: unat_ULONG_MAX)
        with mono have "\<not> foldl ?f (10 * unat acc + nat d) (takeWhile is_digit s) \<le> unat ULONG_MAX"
          by simp
        with small over nd fold show ?thesis by (simp add: Let_def d_def)
      next
        case fits: False
        then have "nat d \<le> unat ULONG_MAX - unat acc * 10"
          by (simp add: word_less_nat_alt sub ud)
        with a have "unat (acc * 10) + unat (word_of_int d :: ulong) < 2 ^ LENGTH(64)"
          by (simp add: m10 ud unat_ULONG_MAX)
        then have "unat (acc * 10 + word_of_int d) = unat (acc * 10) + unat (word_of_int d :: ulong)"
          by (simp add: unat_add_lem [THEN iffD1])
        then have u: "unat (acc * 10 + word_of_int d) = 10 * unat acc + nat d"
          by (simp add: m10 ud)
        from small fits nd have
          step: "decode_decimal_loop acc (ch # s) = decode_decimal_loop (acc * 10 + word_of_int d) s"
          by (simp add: Let_def d_def)
        have dw: "dropWhile is_digit (ch # s) = dropWhile is_digit s"
          using True by simp
        show ?thesis
          by (simp only: step Cons.IH [of "acc * 10 + word_of_int d"] u fold dw)
      qed
    qed
  qed
qed


lemma dropWhile_id_iff: "(dropWhile P xs = xs) = (takeWhile P xs = [])"
proof (cases xs)
  case Nil
  then show ?thesis by simp
next
  case (Cons x xs')
  have le: "length (dropWhile P xs') \<le> length xs'" by (rule length_dropWhile_le)
  have "dropWhile P xs' \<noteq> x # xs'"
  proof
    assume "dropWhile P xs' = x # xs'"
    then have "length (dropWhile P xs') = Suc (length xs')" by simp
    with le show False by simp
  qed
  with Cons show ?thesis by simp
qed

lemma decode_decimal_value:
  "decode_decimal s =
     (if takeWhile is_digit s = []
         \<or> (hd (takeWhile is_digit s) = CHR ''0'' \<and> length (takeWhile is_digit s) > 1)
         \<or> dec_value (takeWhile is_digit s) > unat ULONG_MAX
      then None
      else Some (word_of_nat (dec_value (takeWhile is_digit s)), dropWhile is_digit s))"
proof (cases s)
  case Nil
  then show ?thesis by (simp add: decode_decimal_def)
next
  case (Cons c cs)
  show ?thesis
  proof (cases "is_digit c")
    case False
    with Cons show ?thesis
      by (simp add: decode_decimal_def decode_decimal_loop_value)
  next
    case True
    have ne: "dropWhile is_digit cs \<noteq> c # cs"
    proof
      assume "dropWhile is_digit cs = c # cs"
      then have "length (dropWhile is_digit cs) = Suc (length cs)" by simp
      with length_dropWhile_le [of is_digit cs] show False by simp
    qed
    have one: "(dropWhile is_digit cs \<noteq> cs) = (takeWhile is_digit cs \<noteq> [])"
      by (simp add: dropWhile_id_iff)
    from Cons True ne one show ?thesis
      by (simp add: decode_decimal_def decode_decimal_loop_value dec_value_def peek_def
               del: foldl_Cons)
  qed
qed

text \<open>The digits that \<^verbatim>\<open>sprintf\<close> writes are read back as the number.\<close>

lemma char_to_int_digit: "d < 10 \<Longrightarrow> char_to_int (char_of (48 + d)) = 48 + int d"
  by (simp add: char_to_int_def)

lemma is_digit_char_of: "(d::nat) < 10 \<Longrightarrow> is_digit (char_of (48 + d))"
  by (simp add: is_digit_def char_to_int_digit)

lemma dec_digits_digits: "\<forall>c \<in> set (dec_digits n). is_digit c"
proof (induction n rule: dec_digits.induct)
  case (1 n)
  show ?case
  proof (cases "n < 10")
    case True
    then show ?thesis by (subst dec_digits.simps) (simp add: is_digit_char_of)
  next
    case False
    with "1" have "\<forall>c \<in> set (dec_digits (n div 10)). is_digit c" by simp
    with False show ?thesis
      by (subst dec_digits.simps) (simp add: is_digit_char_of)
  qed
qed

lemma dec_digits_nonempty: "dec_digits n \<noteq> []"
  by (subst dec_digits.simps) simp

lemma dec_digits_hd: "0 < n \<Longrightarrow> hd (dec_digits n) \<noteq> CHR ''0''"
proof (induction n rule: dec_digits.induct)
  case (1 n)
  show ?case
  proof (cases "n < 10")
    case True
    have "char_to_int (char_of (48 + n)) = 48 + int n" using True by (rule char_to_int_digit)
    moreover have "char_to_int (CHR ''0'') = 48" by (simp add: char_to_int_def)
    ultimately have "char_of (48 + n) \<noteq> CHR ''0''" using "1.prems" by auto
    with True show ?thesis by (subst dec_digits.simps) simp
  next
    case False
    then have "0 < n div 10" by simp
    with "1.IH" False have "hd (dec_digits (n div 10)) \<noteq> CHR ''0''" by simp
    with False show ?thesis
      by (subst dec_digits.simps) (simp add: dec_digits_nonempty)
  qed
qed

lemma dec_digits_zero: "dec_digits 0 = ''0''"
  by (subst dec_digits.simps) (simp add: char_of_eq_iff)

lemma dec_value_snoc:
  "dec_value (ds @ [c]) = 10 * dec_value ds + nat (char_to_int c - 48)"
  by (simp add: dec_value_def)

lemma dec_value_dec_digits: "dec_value (dec_digits n) = n"
proof (induction n rule: dec_digits.induct)
  case (1 n)
  show ?case
  proof (cases "n < 10")
    case True
    then show ?thesis
      by (subst dec_digits.simps) (simp add: dec_value_def char_to_int_digit)
  next
    case False
    with "1" have "dec_value (dec_digits (n div 10)) = n div 10" by simp
    with False show ?thesis
      by (subst dec_digits.simps) (simp add: dec_value_snoc char_to_int_digit)
  qed
qed

lemma decode_decimal_dec_digits:
  assumes "n \<le> unat ULONG_MAX" and "rest = [] \<or> \<not> is_digit (hd rest)"
  shows "decode_decimal (dec_digits n @ rest) = Some (word_of_nat n, rest)"
proof -
  from assms(2) have r: "takeWhile is_digit rest = []" "dropWhile is_digit rest = rest"
    by (cases rest; auto)+
  have tw: "takeWhile is_digit (dec_digits n @ rest) = dec_digits n"
    using dec_digits_digits [of n] by (simp add: takeWhile_append2 r)
  have dw: "dropWhile is_digit (dec_digits n @ rest) = rest"
    using dec_digits_digits [of n] by (simp add: dropWhile_append2 r)
  have z: "\<not> (hd (dec_digits n) = CHR ''0'' \<and> length (dec_digits n) > 1)"
  proof (cases "n = 0")
    case True
    then show ?thesis by (simp add: dec_digits_zero)
  next
    case False
    then show ?thesis by (simp add: dec_digits_hd)
  qed
  from assms(1) z show ?thesis
    by (simp add: decode_decimal_value tw dw dec_value_dec_digits dec_digits_nonempty)
qed

lemmas decimal_eval = decode_decimal_def char_to_int_def ULONG_MAX_def peek_def

text \<open>
  Claim C2. \<^verbatim>\<open>decode_decimal\<close> returns \<^verbatim>\<open>NULL\<close> exactly when the run of digits at the start
  of the input is empty, or starts with \<open>0\<close> and is longer than one digit, or denotes a
  value above \<^verbatim>\<open>ULONG_MAX\<close> (\<open>2^64 - 1\<close>); otherwise it returns that value and the pointer
  to the first character that is not a digit. It rejects \<open>0120\<close>, the empty string and
  \<open>18446744073709551616\<close>; it accepts \<open>0\<close> and \<open>18446744073709551615\<close>, and it reads back every
  number that \<^verbatim>\<open>sprintf\<close> prints with \<^verbatim>\<open>%lu\<close>.
\<close>

theorem decode_decimal_strict:
  "decode_decimal s =
     (if takeWhile is_digit s = []
         \<or> (hd (takeWhile is_digit s) = CHR ''0'' \<and> length (takeWhile is_digit s) > 1)
         \<or> dec_value (takeWhile is_digit s) > unat ULONG_MAX
      then None
      else Some (word_of_nat (dec_value (takeWhile is_digit s)), dropWhile is_digit s))
   \<and> unat ULONG_MAX = 2 ^ 64 - 1
   \<and> decode_decimal ''0120'' = None
   \<and> decode_decimal [] = None
   \<and> decode_decimal ''0'' = Some (0, [])
   \<and> decode_decimal ''18446744073709551615,t='' = Some (18446744073709551615, '',t='')
   \<and> decode_decimal ''18446744073709551616'' = None
   \<and> (n \<le> unat ULONG_MAX \<longrightarrow> decode_decimal (sprintf_lu (word_of_nat n)) = Some (word_of_nat n, []))"
proof -
  have e1: "decode_decimal ''0120'' = None"
    by (simp add: decimal_eval)
  have e2: "decode_decimal [] = None"
    by (simp add: decimal_eval)
  have e3: "decode_decimal ''0'' = Some (0, [])"
    by (simp add: decimal_eval)
  have e4: "decode_decimal ''18446744073709551615,t='' = Some (18446744073709551615, '',t='')"
    by (simp add: decimal_eval)
  have e5: "decode_decimal ''18446744073709551616'' = None"
    by (simp add: decimal_eval)
  have p: "decode_decimal (sprintf_lu (word_of_nat n)) = Some (word_of_nat n, [])"
    if "n \<le> unat ULONG_MAX"
  proof -
    from that have "unat (word_of_nat n :: ulong) = n"
      by (simp add: unat_of_nat unat_ULONG_MAX)
    with decode_decimal_dec_digits [OF that, of "[]"] show ?thesis
      by (simp add: sprintf_lu_def)
  qed
  have u: "unat ULONG_MAX = 2 ^ 64 - 1" by (simp add: unat_ULONG_MAX)
  from e1 e2 e3 e4 e5 p u decode_decimal_value [of s] show ?thesis
    by blast
qed

theorem decode_decimal_strict_witness:
  "(5000::nat) \<le> unat ULONG_MAX
   \<and> sprintf_lu 5000 = ''5000''
   \<and> decode_decimal ''5000'' = Some (5000, [])"
proof -
  have a: "(5000::nat) \<le> unat ULONG_MAX" by (simp add: unat_ULONG_MAX)
  have b: "sprintf_lu 5000 = ''5000''"
    by (simp add: sprintf_lu_def dec_digits.simps char_of_eq_iff)
  from decode_decimal_strict [of "[]" 5000] a b show ?thesis by simp
qed

section \<open>Decoding Base64: capacity and leftover bits\<close>

text \<open>
  The frame of the loop: it stores at the indices from \<open>len\<close> up to the returned count,
  never at or beyond the capacity, and leaves through \<^verbatim>\<open>return NULL\<close> only when the count
  has reached the capacity.
\<close>

lemma from_base64_loop_frame:
  assumes "from_base64_loop buf cap len acc acc_len src = (buf', k, x)" and "len \<le> cap"
  shows "len \<le> k \<and> k \<le> cap \<and> length buf' = length buf \<and> drop k buf' = drop k buf
         \<and> take len buf' = take len buf \<and> (x = None \<longrightarrow> k = cap)"
  using assms
proof (induction src arbitrary: buf len acc acc_len)
  case Nil
  then show ?case by auto
next
  case (Cons c src)
  show ?case
  proof (cases "b64_char_to_byte (char_to_int c) = 0xFF")
    case True
    with Cons.prems show ?thesis by auto
  next
    case stop: False
    show ?thesis
    proof (cases "acc_len + 6 \<ge> 8")
      case False
      with stop Cons.prems have
        "from_base64_loop buf cap len (push_bit 6 acc + b64_char_to_byte (char_to_int c))
           (acc_len + 6) src = (buf', k, x)"
        by (simp add: Let_def)
      from Cons.IH [OF this Cons.prems(2)] show ?thesis .
    next
      case emit: True
      show ?thesis
      proof (cases "len \<ge> cap")
        case True
        with stop emit Cons.prems show ?thesis by (auto simp: Let_def)
      next
        case False
        with stop emit Cons.prems have r:
          "from_base64_loop
             (buf[len := ucast (drop_bit (acc_len + 6 - 8)
                 (push_bit 6 acc + b64_char_to_byte (char_to_int c)) AND 0xFF)])
             cap (len + 1) (push_bit 6 acc + b64_char_to_byte (char_to_int c))
             (acc_len + 6 - 8) src = (buf', k, x)"
          by (simp add: Let_def)
        from False have "len + 1 \<le> cap" by simp
        from Cons.IH [OF r this] have
          h: "len + 1 \<le> k" "k \<le> cap" "length buf' = length buf"
             "drop k buf' = drop k (buf[len := ucast (drop_bit (acc_len + 6 - 8)
                 (push_bit 6 acc + b64_char_to_byte (char_to_int c)) AND 0xFF)])"
             "take (len + 1) buf' = take (len + 1) (buf[len := ucast (drop_bit (acc_len + 6 - 8)
                 (push_bit 6 acc + b64_char_to_byte (char_to_int c)) AND 0xFF)])"
             "x = None \<longrightarrow> k = cap"
          by simp_all
        from h(1,4) have "drop k buf' = drop k buf" by simp
        moreover have "take len buf' = take len buf"
        proof -
          have "take len buf' = take len (take (len + 1) buf')" by (simp add: min_def)
          also note h(5)
          also have "take len (take (len + 1) (buf[len := ucast (drop_bit (acc_len + 6 - 8)
                 (push_bit 6 acc + b64_char_to_byte (char_to_int c)) AND 0xFF)])) = take len buf"
            by (simp add: min_def)
          finally show ?thesis .
        qed
        ultimately show ?thesis using h by simp
      qed
    qed
  qed
qed

text \<open>The bytes stored below a capacity do not depend on a larger capacity.\<close>

lemma from_base64_loop_cap_mono:
  assumes "cap \<le> cap'" and "len \<le> cap"
  shows "take cap (fst (from_base64_loop buf cap' len acc acc_len src))
         = take cap (fst (from_base64_loop buf cap len acc acc_len src))"
  using assms(2)
proof (induction src arbitrary: buf len acc acc_len)
  case Nil
  then show ?case by simp
next
  case (Cons c src)
  let ?d = "b64_char_to_byte (char_to_int c)"
  let ?acc = "push_bit 6 acc + ?d"
  let ?v = "ucast (drop_bit (acc_len + 6 - 8) ?acc AND 0xFF) :: uchar"
  show ?case
  proof (cases "?d = 0xFF \<or> \<not> acc_len + 6 \<ge> 8 \<or> len < cap")
    case True
    with Cons assms(1) show ?thesis by (auto simp: Let_def)
  next
    case False
    then have f: "?d \<noteq> 0xFF" "acc_len + 6 \<ge> 8" "len \<ge> cap" by auto
    with Cons.prems have lc: "len = cap" by simp
    from f have r: "fst (from_base64_loop buf cap len acc acc_len (c # src)) = buf"
      by (simp add: Let_def)
    show ?thesis
    proof (cases "len \<ge> cap'")
      case True
      with f r show ?thesis by (simp add: Let_def)
    next
      case False
      obtain b2 k2 x2 where
        e: "from_base64_loop (buf[len := ?v]) cap' (len + 1) ?acc (acc_len + 6 - 8) src
              = (b2, k2, x2)"
        by (metis prod_cases3)
      from False have "len + 1 \<le> cap'" by simp
      from from_base64_loop_frame [OF e this]
      have t: "take (len + 1) b2 = take (len + 1) (buf[len := ?v])" by simp
      have "take len b2 = take len (take (len + 1) b2)" by (simp add: min_def)
      also note t
      also have "take len (take (len + 1) (buf[len := ?v])) = take len buf"
        by (simp add: min_def)
      finally have "take cap b2 = take cap buf" using lc by simp
      moreover from f False e have "fst (from_base64_loop buf cap' len acc acc_len (c # src)) = b2"
        by (simp add: Let_def)
      ultimately show ?thesis using r by simp
    qed
  qed
qed

lemma from_base64_fst:
  "fst (from_base64 dst cap src) = fst (from_base64_loop dst cap 0 0 0 src)"
  by (simp add: from_base64_def split: prod.splits option.splits)

text \<open>
  Claim C10. Let \<open>k\<close> be the number of bytes that \<^verbatim>\<open>from_base64\<close> stores for a
  destination \<open>dst\<close>, a capacity \<open>cap\<close> in \<^verbatim>\<open>*dst_len\<close> and a source \<open>src\<close>. Then
  \<open>k\<close> is at most \<open>cap\<close>, and the buffer is unchanged from index \<open>k\<close> on. When the
  loop returns \<^verbatim>\<open>NULL\<close> because the capacity is exceeded, exactly \<open>cap\<close> bytes have been
  stored, they are the first \<open>cap\<close> bytes that a call with any larger capacity stores,
  and \<^verbatim>\<open>*dst_len\<close> still holds \<open>cap\<close>. On every failure \<^verbatim>\<open>*dst_len\<close> is unchanged; on
  success it is the number of bytes stored.
\<close>

theorem from_base64_capacity:
  assumes "from_base64_loop dst cap 0 0 0 src = (buf, k, x)"
  shows "k \<le> cap \<and> length buf = length dst \<and> drop k buf = drop k dst
         \<and> fst (from_base64 dst cap src) = buf
         \<and> (x = None \<longrightarrow>
              k = cap \<and> from_base64 dst cap src = (buf, cap, None)
              \<and> (\<forall>cap'. cap \<le> cap' \<longrightarrow>
                    take cap (fst (from_base64 dst cap' src)) = take cap buf))
         \<and> (snd (snd (from_base64 dst cap src)) = None \<longrightarrow>
              fst (snd (from_base64 dst cap src)) = cap)
         \<and> (snd (snd (from_base64 dst cap src)) \<noteq> None \<longrightarrow>
              fst (snd (from_base64 dst cap src)) = k)"
proof -
  from from_base64_loop_frame [OF assms] have
    a: "k \<le> cap" "length buf = length dst" "drop k buf = drop k dst" "x = None \<longrightarrow> k = cap"
    by simp_all
  have b: "fst (from_base64 dst cap src) = buf"
    by (simp add: from_base64_fst assms)
  have c: "take cap (fst (from_base64 dst cap' src)) = take cap buf" if "cap \<le> cap'" for cap'
    using from_base64_loop_cap_mono [OF that, of 0 dst 0 0 src] assms
    by (simp add: from_base64_fst)
  have d: "from_base64 dst cap src = (buf, cap, None)" if "x = None"
    using that assms by (simp add: from_base64_def)
  have e: "snd (snd (from_base64 dst cap src)) = None \<longrightarrow>
              fst (snd (from_base64 dst cap src)) = cap"
    using assms by (simp add: from_base64_def split: prod.splits option.splits)
  have f: "snd (snd (from_base64 dst cap src)) \<noteq> None \<longrightarrow>
              fst (snd (from_base64 dst cap src)) = k"
    using assms by (simp add: from_base64_def split: prod.splits option.splits)
  from a b c d e f show ?thesis by blast
qed

theorem from_base64_capacity_witness:
  "from_base64_loop (replicate 8 0) 8 0 0 0 ''Mwmcv5/avkXJ''
     = ([51, 9, 156, 191, 159, 218, 190, 69], 8, None)
   \<and> from_base64 (replicate 8 0) 8 ''Mwmcv5/avkXJ''
     = ([51, 9, 156, 191, 159, 218, 190, 69], 8, None)
   \<and> take 8 (fst (from_base64 (replicate 8 0) 9 ''Mwmcv5/avkXJ''))
     = [51, 9, 156, 191, 159, 218, 190, 69]"
proof -
  have e: "from_base64_loop (replicate 8 0) 8 0 0 0 ''Mwmcv5/avkXJ''
     = ([51, 9, 156, 191, 159, 218, 190, 69], 8, None)"
    by code_simp
  from from_base64_capacity [OF e] show ?thesis using e by simp
qed

subsection \<open>The bits left over at the end of the run\<close>

text \<open>
  The run of Base64 characters at the start of a string is \<open>b64_run\<close>, defined with the
  alphabet. On a character of nonnegative value the classification by the code is the one
  of the alphabet.
\<close>

lemma b64_char_to_byte_ascii:
  assumes "0 \<le> char_to_int c"
  shows "b64_char_to_byte (char_to_int c) = b64_value (char_to_int c)"
proof -
  have "(of_char c :: nat) < 256" by (rule nat_of_char_less_256)
  then have "char_to_int c \<le> 255" by (simp only: char_to_int_def split: if_split) arith
  with assms show ?thesis by (rule b64_char_to_byte_byte)
qed

lemma b64_run_Cons:
  "b64_run (c # src) =
     (if b64_value (char_to_int c) \<noteq> 0xFF then c # b64_run src else [])"
  by (simp add: b64_run_def)

text \<open>
  At the \<^verbatim>\<open>break\<close>, for a source of 7-bit characters, the source pointer stands behind
  the run of Base64 characters and the bit count is the number of consumed bits modulo 8.
\<close>

lemma from_base64_loop_stop:
  assumes "from_base64_loop buf cap len acc acc_len src = (buf', k, Some (acc', acc_len', rest))"
    and "acc_len < 8"
    and "\<forall>c \<in> set src. 0 \<le> char_to_int c"
  shows "rest = drop (length (b64_run src)) src
         \<and> acc_len' = (acc_len + 6 * length (b64_run src)) mod 8"
  using assms
proof (induction src arbitrary: buf len acc acc_len)
  case Nil
  then show ?case by (auto simp: b64_run_def)
next
  case (Cons c src)
  let ?d = "b64_char_to_byte (char_to_int c)"
  from Cons.prems(3) have cv: "?d = b64_value (char_to_int c)"
    by (simp add: b64_char_to_byte_ascii)
  from Cons.prems(3) have asc: "\<forall>c \<in> set src. 0 \<le> char_to_int c" by simp
  show ?case
  proof (cases "?d = 0xFF")
    case True
    with Cons.prems(1) have "rest = c # src" "acc_len' = acc_len" by simp_all
    with True cv Cons.prems(2) show ?thesis by (simp add: b64_run_Cons)
  next
    case stop: False
    with cv have run: "b64_run (c # src) = c # b64_run src" by (simp add: b64_run_Cons)
    show ?thesis
    proof (cases "acc_len + 6 \<ge> 8")
      case False
      with stop Cons.prems(1) have
        r: "from_base64_loop buf cap len (push_bit 6 acc + ?d) (acc_len + 6) src
             = (buf', k, Some (acc', acc_len', rest))"
        by (simp add: Let_def)
      from False have "acc_len + 6 < 8" by simp
      from Cons.IH [OF r this asc] show ?thesis
        by (simp add: run add.assoc)
    next
      case emit: True
      with stop Cons.prems(1) have nf: "\<not> len \<ge> cap"
        by (auto simp: Let_def)
      with emit stop Cons.prems(1) have
        r: "from_base64_loop
             (buf[len := ucast (drop_bit (acc_len + 6 - 8) (push_bit 6 acc + ?d) AND 0xFF)])
             cap (len + 1) (push_bit 6 acc + ?d) (acc_len + 6 - 8) src
             = (buf', k, Some (acc', acc_len', rest))"
        by (simp add: Let_def)
      from Cons.prems(2) have "acc_len + 6 - 8 < 8" by simp
      from Cons.IH [OF r this asc] have
        h: "rest = drop (length (b64_run src)) src"
           "acc_len' = (acc_len + 6 - 8 + 6 * length (b64_run src)) mod 8"
        by simp_all
      from emit have "acc_len + 6 * Suc (length (b64_run src))
                      = (acc_len + 6 - 8 + 6 * length (b64_run src)) + 8"
        by simp
      then have "(acc_len + 6 * Suc (length (b64_run src))) mod 8
                 = (acc_len + 6 - 8 + 6 * length (b64_run src)) mod 8"
        by (simp only: mod_add_self2)
      with h show ?thesis by (simp add: run)
    qed
  qed
qed

lemma six_mod_eight: "(6 * n mod 8 > 4) = (n mod 4 = (1::nat))"
proof -
  have c: "n mod 4 = 0 \<or> n mod 4 = 1 \<or> n mod 4 = 2 \<or> n mod 4 = 3" by arith
  have e: "6 * n = 6 * (n mod 4) + 3 * (n div 4) * 8"
    using div_mult_mod_eq [of n 4] by arith
  have "6 * n mod 8 = 6 * (n mod 4) mod 8"
    by (subst e) (simp only: mod_mult_self1)
  with c show ?thesis by auto
qed

text \<open>A run of 7-bit characters whose length is 1 modulo 4 is rejected, whatever the capacity.\<close>

lemma from_base64_mod4:
  assumes "\<forall>c \<in> set src. 0 \<le> char_to_int c"
    and "length (b64_run src) mod 4 = 1"
  shows "snd (snd (from_base64 dst cap src)) = None"
proof -
  obtain buf k x where e: "from_base64_loop dst cap 0 0 0 src = (buf, k, x)"
    by (metis prod_cases3)
  show ?thesis
  proof (cases x)
    case None
    with e show ?thesis by (simp add: from_base64_def)
  next
    case (Some y)
    obtain acc acc_len rest where y: "y = (acc, acc_len, rest)" by (metis prod_cases3)
    from from_base64_loop_stop [of dst cap 0 0 0 src buf k acc acc_len rest] e Some y assms(1)
    have "acc_len = 6 * length (b64_run src) mod 8" by simp
    with assms(2) have "acc_len > 4" by (simp add: six_mod_eight)
    with e Some y show ?thesis by (simp add: from_base64_def)
  qed
qed

text \<open>What \<^verbatim>\<open>from_base64\<close> returns does not depend on the content of the buffer.\<close>

lemma from_base64_loop_buf_indep:
  "snd (from_base64_loop buf cap len acc acc_len src)
   = snd (from_base64_loop buf' cap len acc acc_len src)"
  by (induction src arbitrary: buf buf' len acc acc_len) (simp_all add: Let_def)

lemma from_base64_buf_indep:
  "snd (from_base64 buf cap src) = snd (from_base64 buf' cap src)"
proof -
  obtain b1 k1 x1 where e1: "from_base64_loop buf cap 0 0 0 src = (b1, k1, x1)"
    by (metis prod_cases3)
  obtain b2 k2 x2 where e2: "from_base64_loop buf' cap 0 0 0 src = (b2, k2, x2)"
    by (metis prod_cases3)
  from from_base64_loop_buf_indep [of buf cap 0 0 0 src buf'] e1 e2
  have "k1 = k2" "x1 = x2" by simp_all
  with e1 e2 show ?thesis
    by (simp add: from_base64_def split: option.splits prod.splits)
qed

lemma decode_keyid_reject:
  assumes "CC '',keyid='' str = Some str'"
    and "snd (snd (from_base64 [] 8 str')) = None"
  shows "fst (decode_keyid pp str) = 0"
proof -
  from assms(2) from_base64_buf_indep [of "key_id pp" 8 str' "[]"]
  have "snd (snd (from_base64 (key_id pp) 8 str')) = None" by simp
  with assms(1) show ?thesis
    by (auto simp: decode_keyid_def split: prod.splits option.splits)
qed

lemmas decode_header_defs =
  argon2i_decode_string_def decode_check_def CC_def decode_decimal_def
  char_to_int_def ULONG_MAX_def peek_def

text \<open>
  On a source of 7-bit characters the checks behind the loop are as documented: with
  \<open>acc_len\<close> buffered bits in \<open>acc\<close>, \<^verbatim>\<open>NULL\<close> is returned exactly when more than 4 bits are
  buffered or one of the buffered bits is not zero; \<open>acc_len\<close> is \<open>6 n mod 8\<close> for a run of
  \<open>n\<close> Base64 characters, which is above 4 exactly when \<open>n mod 4 = 1\<close>.
\<close>

lemma from_base64_leftover_ascii:
  assumes asc: "\<forall>c \<in> set src. 0 \<le> char_to_int c"
    and e: "from_base64_loop dst cap 0 0 0 src = (buf, k, Some (acc, acc_len, rest))"
  shows "rest = dropWhile (\<lambda>c. b64_value (char_to_int c) \<noteq> 0xFF) src"
    and "acc_len = 6 * length (b64_run src) mod 8"
    and "(acc_len > 4) = (length (b64_run src) mod 4 = 1)"
    and "(snd (snd (from_base64 dst cap src)) = None)
          = (acc_len > 4 \<or> acc AND (push_bit acc_len 1 - 1) \<noteq> 0)"
proof -
  from from_base64_loop_stop [OF e _ asc] have
    h: "rest = drop (length (b64_run src)) src" "acc_len = 6 * length (b64_run src) mod 8"
    by simp_all
  from h(1) show "rest = dropWhile (\<lambda>c. b64_value (char_to_int c) \<noteq> 0xFF) src"
    by (simp add: b64_run_def dropWhile_eq_drop)
  from h(2) show "acc_len = 6 * length (b64_run src) mod 8" .
  from h(2) show "(acc_len > 4) = (length (b64_run src) mod 4 = 1)"
    by (simp add: six_mod_eight)
  from e show "(snd (snd (from_base64 dst cap src)) = None)
          = (acc_len > 4 \<or> acc AND (push_bit acc_len 1 - 1) \<noteq> 0)"
    by (simp add: from_base64_def)
qed

text \<open>
  Claim C4. The loop of \<^verbatim>\<open>from_base64\<close> does not stop at the first character outside the
  alphabet when that character has a negative value: \<^verbatim>\<open>*src\<close> is passed to
  \<^verbatim>\<open>b64_char_to_byte\<close> as a plain \<^verbatim>\<open>char\<close>, and the bytes \<open>0x80\<close> to \<open>0xFF\<close> are taken for
  \<^verbatim>\<open>/\<close>. For the source \<^verbatim>\<open>A\<close> followed by three bytes \<open>0x80\<close> the run of Base64 characters
  is \<^verbatim>\<open>A\<close>, of length 1; the function consumes all four bytes, stores 3, 255, 255 and
  does not return \<^verbatim>\<open>NULL\<close>, and \<^verbatim>\<open>argon2i_decode_string\<close> accepts the key identifier.
  The key identifier \<^verbatim>\<open>Hj5+dsK0Z\<close> of the claim, 9 characters of the alphabet, is rejected.
\<close>

theorem from_base64_high_byte_run:
  "b64_run [CHR ''A'', CHR 0x80, CHR 0x80, CHR 0x80] = ''A''
   \<and> length (b64_run [CHR ''A'', CHR 0x80, CHR 0x80, CHR 0x80]) mod 4 = 1
   \<and> from_base64 (replicate 8 0) 8 [CHR ''A'', CHR 0x80, CHR 0x80, CHR 0x80]
       = ([3, 255, 255, 0, 0, 0, 0, 0], 3, Some [])
   \<and> fst (argon2i_decode_string params0
             (''$argon2i$m=120,t=5000,p=2,keyid='' @ [CHR ''A'', CHR 0x80, CHR 0x80, CHR 0x80]))
       = 1
   \<and> from_base64 (replicate 8 0) 8 ''Hj5+dsK0Z''
       = ([30, 62, 126, 118, 194, 180, 0, 0], 8, None)
   \<and> fst (argon2i_decode_string params0 ''$argon2i$m=120,t=5000,p=2,keyid=Hj5+dsK0Z'') = 0"
proof -
  have r: "b64_run [CHR ''A'', CHR 0x80, CHR 0x80, CHR 0x80] = ''A''"
    by (simp add: b64_run_def b64_value_def char_to_int_def)
  have f: "from_base64 (replicate 8 0) 8 [CHR ''A'', CHR 0x80, CHR 0x80, CHR 0x80]
       = ([3, 255, 255, 0, 0, 0, 0, 0], 3, Some [])"
    by code_simp
  have d: "fst (argon2i_decode_string params0
             (''$argon2i$m=120,t=5000,p=2,keyid='' @ [CHR ''A'', CHR 0x80, CHR 0x80, CHR 0x80]))
       = 1"
    by code_simp
  have g: "from_base64 (replicate 8 0) 8 ''Hj5+dsK0Z''
       = ([30, 62, 126, 118, 194, 180, 0, 0], 8, None)"
    by code_simp
  have h: "fst (argon2i_decode_string params0 ''$argon2i$m=120,t=5000,p=2,keyid=Hj5+dsK0Z'') = 0"
    by code_simp
  from r f d g h show ?thesis by simp
qed

section \<open>The Base64 round trip\<close>

text \<open>
  The masks of the source as truncations, and the additions of the accumulators as
  bitwise disjunctions: a byte or a 6-bit value is added to an accumulator that was
  shifted left by as many bits.
\<close>

lemma and_3F: "(x::uint) AND 0x3F = take_bit 6 x"
proof -
  have "(0x3F::uint) = mask 6" by (simp add: mask_eq_exp_minus_1)
  then show ?thesis by (simp only: take_bit_eq_mask)
qed

lemma and_FF: "(x::uint) AND 0xFF = take_bit 8 x"
proof -
  have "(0xFF::uint) = mask 8" by (simp add: mask_eq_exp_minus_1)
  then show ?thesis by (simp only: take_bit_eq_mask)
qed

lemma add_byte: "push_bit 8 (a::uint) + ucast (b::uchar) = push_bit 8 a OR ucast b"
  by (rule disjunctive_add) (auto simp: bit_simps dest: bit_imp_le_length)

lemma add_sextet: "push_bit 6 (a::uint) + take_bit 6 v = push_bit 6 a OR take_bit 6 v"
  by (rule disjunctive_add) (auto simp: bit_simps)

lemma byte_eqI:
  fixes x y :: uchar
  assumes "bit x 0 = bit y 0" "bit x 1 = bit y 1" "bit x 2 = bit y 2" "bit x 3 = bit y 3"
    "bit x 4 = bit y 4" "bit x 5 = bit y 5" "bit x 6 = bit y 6" "bit x 7 = bit y 7"
  shows "x = y"
proof (rule bit_eqI)
  fix n
  assume "possible_bit TYPE(uchar) n"
  then have "n < 8" by (simp add: possible_bit_word)
  then have "n \<in> {0, 1, 2, 3, 4, 5, 6, 7}"
    by auto
  with assms show "bit x n = bit y n" by auto
qed

lemma and_F: "(x::uint) AND 15 = take_bit 4 x"
proof -
  have "(15::uint) = mask 4" by (simp add: mask_eq_exp_minus_1)
  then show ?thesis by (simp only: take_bit_eq_mask)
qed

lemma and_3: "(x::uint) AND 3 = take_bit 2 x"
proof -
  have "(3::uint) = mask 2" by (simp add: mask_eq_exp_minus_1)
  then show ?thesis by (simp only: take_bit_eq_mask)
qed

lemma sextet_less: "take_bit 6 (y::uint) < 64"
proof -
  have "unat (take_bit 6 y) < 2 ^ 6"
    by (simp only: unsigned_take_bit_eq take_bit_nat_less_exp)
  then show ?thesis by (simp add: word_less_nat_alt)
qed

text \<open>
  Each of the 64 values is mapped to a character with a code below 128, which
  \<^verbatim>\<open>b64_char_to_byte\<close> maps back to the value.
\<close>

lemma b64_chars_table:
  "list_all (\<lambda>x. b64_char_to_byte (int (unat (b64_byte_to_char (word_of_nat x)))) = word_of_nat x
                \<and> unat (b64_byte_to_char (word_of_nat x)) < 128) [0..<64]"
  by code_simp

lemma char_to_int_int_to_char:
  "unat x < 128 \<Longrightarrow> char_to_int (int_to_char x) = int (unat x)"
  by (simp add: char_to_int_def int_to_char_def)

lemma b64_char_roundtrip:
  assumes "v < 64"
  shows "b64_char_to_byte (char_to_int (int_to_char (b64_byte_to_char v))) = v"
proof -
  from assms have uv: "unat v < 64" by (simp add: word_less_nat_alt)
  have t: "\<forall>x \<in> {0..<64}.
             b64_char_to_byte (int (unat (b64_byte_to_char (word_of_nat x)))) = word_of_nat x
             \<and> unat (b64_byte_to_char (word_of_nat x)) < 128"
    using b64_chars_table by (simp add: list_all_iff)
  have "b64_char_to_byte (int (unat (b64_byte_to_char v))) = v
        \<and> unat (b64_byte_to_char v) < 128"
    using bspec [OF t, of "unat v"] uv by simp
  then show ?thesis by (simp add: char_to_int_int_to_char)
qed

lemma b64_char_to_byte_NUL: "b64_char_to_byte (char_to_int (CHR 0x00)) = 0xFF"
  by (simp add: b64_char_to_byte_def char_to_int_def EQ_def GT_def GE_def LT_def LE_def)

text \<open>One character of the decoder, by the number of buffered bits.\<close>

lemma from_base64_step0:
  assumes "v < 64"
  shows "from_base64_loop buf cap len acc 0 (int_to_char (b64_byte_to_char v) # cs)
         = from_base64_loop buf cap len (push_bit 6 acc + v) 6 cs"
proof -
  from assms have "v \<noteq> 0xFF" by auto
  with assms show ?thesis by (simp add: b64_char_roundtrip Let_def)
qed

lemma from_base64_step6:
  assumes "v < 64" and "len < cap"
  shows "from_base64_loop buf cap len acc 6 (int_to_char (b64_byte_to_char v) # cs)
         = from_base64_loop (buf[len := ucast (drop_bit 4 (push_bit 6 acc + v) AND 0xFF)])
             cap (Suc len) (push_bit 6 acc + v) 4 cs"
proof -
  from assms have "v \<noteq> 0xFF" by auto
  with assms show ?thesis by (simp add: b64_char_roundtrip Let_def)
qed

lemma from_base64_step4:
  assumes "v < 64" and "len < cap"
  shows "from_base64_loop buf cap len acc 4 (int_to_char (b64_byte_to_char v) # cs)
         = from_base64_loop (buf[len := ucast (drop_bit 2 (push_bit 6 acc + v) AND 0xFF)])
             cap (Suc len) (push_bit 6 acc + v) 2 cs"
proof -
  from assms have "v \<noteq> 0xFF" by auto
  with assms show ?thesis by (simp add: b64_char_roundtrip Let_def)
qed

lemma from_base64_step2:
  assumes "v < 64" and "len < cap"
  shows "from_base64_loop buf cap len acc 2 (int_to_char (b64_byte_to_char v) # cs)
         = from_base64_loop (buf[len := ucast ((push_bit 6 acc + v) AND 0xFF)])
             cap (Suc len) (push_bit 6 acc + v) 0 cs"
proof -
  from assms have "v \<noteq> 0xFF" by auto
  with assms show ?thesis by (simp add: b64_char_roundtrip Let_def)
qed

lemma from_base64_stop:
  assumes "rest = [] \<or> b64_char_to_byte (char_to_int (hd rest)) = 0xFF"
  shows "from_base64_loop buf cap len acc acc_len rest = (buf, len, Some (acc, acc_len, rest))"
  using assms by (cases rest) simp_all

text \<open>The encoder.\<close>

lemma to_base64_emit_dst:
  "to_base64_emit acc acc_len dst
   = (fst (to_base64_emit acc acc_len []), dst @ snd (to_base64_emit acc acc_len []))"
proof (induction acc_len arbitrary: dst rule: less_induct)
  case (less acc_len)
  show ?case
  proof (cases "acc_len \<ge> 6")
    case False
    then show ?thesis by (simp add: to_base64_emit.simps)
  next
    case True
    let ?c = "int_to_char (b64_byte_to_char (drop_bit (acc_len - 6) acc AND 0x3F))"
    let ?r = "to_base64_emit acc (acc_len - 6) []"
    from True have lt: "acc_len - 6 < acc_len" by simp
    have unf: "to_base64_emit acc acc_len d = to_base64_emit acc (acc_len - 6) (d @ [?c])" for d
      using True by (subst to_base64_emit.simps) simp
    have "to_base64_emit acc acc_len dst = (fst ?r, (dst @ [?c]) @ snd ?r)"
      by (simp only: unf less.IH [OF lt, of "dst @ [?c]"])
    moreover have "to_base64_emit acc acc_len [] = (fst ?r, [?c] @ snd ?r)"
      using less.IH [OF lt, of "[?c]"] by (simp only: unf append_Nil)
    ultimately show ?thesis by simp
  qed
qed

lemma to_base64_emit_8:
  "to_base64_emit acc 8 dst
   = (2, dst @ [int_to_char (b64_byte_to_char (drop_bit 2 acc AND 0x3F))])"
  by (simp add: to_base64_emit.simps)

lemma to_base64_emit_10:
  "to_base64_emit acc 10 dst
   = (4, dst @ [int_to_char (b64_byte_to_char (drop_bit 4 acc AND 0x3F))])"
  by (simp add: to_base64_emit.simps)

lemma to_base64_emit_12:
  "to_base64_emit acc 12 dst
   = (0, dst @ [int_to_char (b64_byte_to_char (drop_bit 6 acc AND 0x3F)),
                int_to_char (b64_byte_to_char (acc AND 0x3F))])"
  by (simp add: to_base64_emit.simps)

lemma to_base64_loop_dst:
  "to_base64_loop acc acc_len src dst
   = (fst (to_base64_loop acc acc_len src []), fst (snd (to_base64_loop acc acc_len src [])),
      dst @ snd (snd (to_base64_loop acc acc_len src [])))"
proof (induction src arbitrary: acc acc_len dst)
  case Nil
  show ?case by simp
next
  case (Cons b src)
  let ?a = "push_bit 8 acc + ucast b"
  let ?l = "fst (to_base64_emit ?a (acc_len + 8) [])"
  let ?t = "snd (to_base64_emit ?a (acc_len + 8) [])"
  have e: "to_base64_emit ?a (acc_len + 8) dst = (?l, dst @ ?t)"
    by (rule to_base64_emit_dst)
  have "to_base64_loop acc acc_len (b # src) dst = to_base64_loop ?a ?l src (dst @ ?t)"
    by (simp add: Let_def e)
  also have "\<dots> = (fst (to_base64_loop ?a ?l src []), fst (snd (to_base64_loop ?a ?l src [])),
                  (dst @ ?t) @ snd (snd (to_base64_loop ?a ?l src [])))"
    by (rule Cons.IH)
  also have "to_base64_loop ?a ?l src [] =
               (fst (to_base64_loop ?a ?l src ?t), fst (snd (to_base64_loop ?a ?l src ?t)),
                drop (length ?t) (snd (snd (to_base64_loop ?a ?l src ?t))))"
    using Cons.IH [of ?a ?l ?t] by simp
  also have "to_base64_loop ?a ?l src ?t = to_base64_loop acc acc_len (b # src) []"
    by (simp add: Let_def split: prod.splits)
  finally show ?case
    using Cons.IH [of ?a ?l ?t] by (simp add: Let_def split: prod.splits)
qed

lemma and_3F_less: "(x::uint) AND 0x3F < 64"
  by (simp only: and_3F sextet_less)

lemma to_base64_text_0: "to_base64_text acc [] = []"
  by (simp add: to_base64_text_def)

lemma to_base64_text_1:
  "to_base64_text acc [b1] =
     [int_to_char (b64_byte_to_char (drop_bit 2 (push_bit 8 acc + ucast b1) AND 0x3F)),
      int_to_char (b64_byte_to_char (push_bit 4 (push_bit 8 acc + ucast b1) AND 0x3F))]"
  by (simp add: to_base64_text_def Let_def to_base64_emit_8)

lemma to_base64_text_2:
  "to_base64_text acc [b1, b2] =
     [int_to_char (b64_byte_to_char (drop_bit 2 (push_bit 8 acc + ucast b1) AND 0x3F)),
      int_to_char (b64_byte_to_char
        (drop_bit 4 (push_bit 8 (push_bit 8 acc + ucast b1) + ucast b2) AND 0x3F)),
      int_to_char (b64_byte_to_char
        (push_bit 2 (push_bit 8 (push_bit 8 acc + ucast b1) + ucast b2) AND 0x3F))]"
  by (simp add: to_base64_text_def Let_def to_base64_emit_8 to_base64_emit_10)

lemma to_base64_text_3:
  "to_base64_text acc (b1 # b2 # b3 # bs) =
     [int_to_char (b64_byte_to_char (drop_bit 2 (push_bit 8 acc + ucast b1) AND 0x3F)),
      int_to_char (b64_byte_to_char
        (drop_bit 4 (push_bit 8 (push_bit 8 acc + ucast b1) + ucast b2) AND 0x3F)),
      int_to_char (b64_byte_to_char
        (drop_bit 6 (push_bit 8 (push_bit 8 (push_bit 8 acc + ucast b1) + ucast b2) + ucast b3)
           AND 0x3F)),
      int_to_char (b64_byte_to_char
        ((push_bit 8 (push_bit 8 (push_bit 8 acc + ucast b1) + ucast b2) + ucast b3) AND 0x3F))]
     @ to_base64_text (push_bit 8 (push_bit 8 (push_bit 8 acc + ucast b1) + ucast b2) + ucast b3) bs"
proof -
  define a3 where "a3 = push_bit 8 (push_bit 8 (push_bit 8 acc + ucast b1) + ucast b2) + ucast b3"
  define cs where "cs =
     [int_to_char (b64_byte_to_char (drop_bit 2 (push_bit 8 acc + ucast b1) AND 0x3F)),
      int_to_char (b64_byte_to_char
        (drop_bit 4 (push_bit 8 (push_bit 8 acc + ucast b1) + ucast b2) AND 0x3F)),
      int_to_char (b64_byte_to_char (drop_bit 6 a3 AND 0x3F)),
      int_to_char (b64_byte_to_char (a3 AND 0x3F))]"
  have "to_base64_loop acc 0 (b1 # b2 # b3 # bs) [] = to_base64_loop a3 0 bs cs"
    by (simp add: Let_def to_base64_emit_8 to_base64_emit_10 to_base64_emit_12 a3_def cs_def)
  also have "\<dots> = (fst (to_base64_loop a3 0 bs []), fst (snd (to_base64_loop a3 0 bs [])),
                  cs @ snd (snd (to_base64_loop a3 0 bs [])))"
    by (rule to_base64_loop_dst)
  finally have "to_base64_text acc (b1 # b2 # b3 # bs) = cs @ to_base64_text a3 bs"
    by (simp add: to_base64_text_def Let_def split: prod.splits)
  then show ?thesis by (simp only: a3_def cs_def)
qed

lemma b64_length_simps:
  "b64_length 0 = 0" "b64_length (Suc 0) = 2" "b64_length (Suc (Suc 0)) = 3"
  "b64_length (Suc (Suc (Suc n))) = 4 + b64_length n"
proof -
  have e: "Suc (Suc (Suc n)) = n + 3" by simp
  have d: "(n + 3) div 3 = n div 3 + 1" "(n + 3) mod 3 = n mod 3" by arith+
  show "b64_length (Suc (Suc (Suc n))) = 4 + b64_length n"
    by (simp only: b64_length_def e d) simp
qed (simp_all add: b64_length_def)

lemma to_base64_text_length: "length (to_base64_text acc bs) = b64_length (length bs)"
proof (induction bs arbitrary: acc rule: triples.induct)
  case (1 a b c xs)
  then show ?case by (simp add: to_base64_text_3 b64_length_simps)
next
  case 2
  show ?case by (simp add: to_base64_text_0 b64_length_simps)
next
  case (3 v)
  show ?case by (simp add: to_base64_text_1 b64_length_simps)
next
  case (4 v va)
  show ?case by (simp add: to_base64_text_2 b64_length_simps)
qed

lemma to_base64_eq:
  "to_base64 dst_len src =
     (if dst_len \<le> b64_length (length src) then None
      else Some (b64_length (length src), to_base64_text 0 src))"
  by (simp add: to_base64_def to_base64_text_def b64_length_def Let_def push_bit_eq_mult
           split: prod.splits)

lemma to_base64_length:
  "to_base64 dst_len src = Some (olen, text) \<Longrightarrow> olen = length text"
  by (auto simp: to_base64_eq to_base64_text_length split: if_splits)


text \<open>The bytes that the decoder rebuilds from the characters of a group.\<close>

lemma bit_uchar_beyond: "8 \<le> n \<Longrightarrow> bit (b::uchar) n = False"
  using bit_imp_le_length [of b n] by auto

lemma group_bytes:
  fixes acc acc' :: uint and b1 b2 b3 :: uchar
  defines "a1 \<equiv> push_bit 8 acc + ucast b1"
  defines "a2 \<equiv> push_bit 8 a1 + ucast b2"
  defines "a3 \<equiv> push_bit 8 a2 + ucast b3"
  defines "x1 \<equiv> push_bit 6 acc' + (drop_bit 2 a1 AND 0x3F)"
  defines "x2 \<equiv> push_bit 6 x1 + (drop_bit 4 a2 AND 0x3F)"
  defines "x3 \<equiv> push_bit 6 x2 + (drop_bit 6 a3 AND 0x3F)"
  defines "x4 \<equiv> push_bit 6 x3 + (a3 AND 0x3F)"
  shows "ucast (drop_bit 4 x2 AND 0xFF) = b1"
    and "ucast (drop_bit 2 x3 AND 0xFF) = b2"
    and "ucast (x4 AND 0xFF) = b3"
  unfolding a1_def a2_def a3_def x1_def x2_def x3_def x4_def and_3F and_FF add_byte add_sextet
  by (rule byte_eqI; simp add: bit_simps bit_uchar_beyond)+

lemma group_bytes_1:
  fixes acc acc' :: uint and b1 :: uchar
  defines "a1 \<equiv> push_bit 8 acc + ucast b1"
  defines "x1 \<equiv> push_bit 6 acc' + (drop_bit 2 a1 AND 0x3F)"
  defines "x2 \<equiv> push_bit 6 x1 + (push_bit 4 a1 AND 0x3F)"
  shows "ucast (drop_bit 4 x2 AND 0xFF) = b1"
    and "x2 AND 15 = 0"
  unfolding a1_def x1_def x2_def and_3F and_FF and_F add_byte add_sextet
  by (rule byte_eqI; simp add: bit_simps bit_uchar_beyond) (rule bit_eqI; auto simp: bit_simps)

lemma group_bytes_2:
  fixes acc acc' :: uint and b1 b2 :: uchar
  defines "a1 \<equiv> push_bit 8 acc + ucast b1"
  defines "a2 \<equiv> push_bit 8 a1 + ucast b2"
  defines "x1 \<equiv> push_bit 6 acc' + (drop_bit 2 a1 AND 0x3F)"
  defines "x2 \<equiv> push_bit 6 x1 + (drop_bit 4 a2 AND 0x3F)"
  defines "x3 \<equiv> push_bit 6 x2 + (push_bit 2 a2 AND 0x3F)"
  shows "ucast (drop_bit 4 x2 AND 0xFF) = b1"
    and "ucast (drop_bit 2 x3 AND 0xFF) = b2"
    and "x3 AND 3 = 0"
  unfolding a1_def a2_def x1_def x2_def x3_def and_3F and_FF and_3 add_byte add_sextet
  by (rule byte_eqI; simp add: bit_simps bit_uchar_beyond)+ (rule bit_eqI; auto simp: bit_simps)

lemma take_update3:
  "Suc (Suc (Suc len)) \<le> length buf \<Longrightarrow>
     take (Suc (Suc (Suc len))) (buf[len := x, Suc len := y, Suc (Suc len) := z])
     = take len buf @ [x, y, z]"
  by (simp add: take_Suc_conv_app_nth nth_list_update)

lemma take_update2:
  "Suc (Suc len) \<le> length buf \<Longrightarrow>
     take (Suc (Suc len)) (buf[len := x, Suc len := y]) = take len buf @ [x, y]"
  by (simp add: take_Suc_conv_app_nth nth_list_update)

lemma update2_eq:
  assumes "Suc (Suc len) \<le> length buf"
  shows "buf[len := x, Suc len := y] = take len buf @ [x, y] @ drop (Suc (Suc len)) buf"
proof -
  have "buf[len := x, Suc len := y]
        = take (Suc (Suc len)) (buf[len := x, Suc len := y])
          @ drop (Suc (Suc len)) (buf[len := x, Suc len := y])"
    by (simp only: append_take_drop_id)
  also have "\<dots> = (take len buf @ [x, y]) @ drop (Suc (Suc len)) buf"
    using assms by (simp only: take_update2) simp
  finally show ?thesis by simp
qed

lemma update1_eq:
  assumes "Suc len \<le> length buf"
  shows "buf[len := x] = take len buf @ [x] @ drop (Suc len) buf"
  using assms by (simp add: upd_conv_take_nth_drop)

text \<open>
  The decoder, started with no buffered bits on the characters that the encoder writes
  for \<open>bs\<close>, stores \<open>bs\<close> and stops behind the characters with at most 4 buffered bits,
  all of them zero. The accumulators of both loops keep bits of earlier groups in their
  high positions; these never reach a character or a byte.
\<close>

lemma roundtrip_loop:
  assumes rest: "rest = [] \<or> b64_char_to_byte (char_to_int (hd rest)) = 0xFF"
  shows "len + length bs \<le> cap \<Longrightarrow> cap \<le> length buf \<Longrightarrow>
     \<exists>accf alf.
       from_base64_loop buf cap len acc' 0 (to_base64_text acc bs @ rest)
         = (take len buf @ bs @ drop (len + length bs) buf, len + length bs,
            Some (accf, alf, rest))
       \<and> alf \<le> 4 \<and> accf AND (push_bit alf 1 - 1) = 0"
proof (induction bs arbitrary: buf len acc acc' rule: triples.induct)
  case (1 b1 b2 b3 xs)
  define a1 where "a1 = push_bit 8 acc + ucast b1"
  define a2 where "a2 = push_bit 8 a1 + ucast b2"
  define a3 where "a3 = push_bit 8 a2 + ucast b3"
  define v1 where "v1 = drop_bit 2 a1 AND 0x3F"
  define v2 where "v2 = drop_bit 4 a2 AND 0x3F"
  define v3 where "v3 = drop_bit 6 a3 AND 0x3F"
  define v4 where "v4 = a3 AND 0x3F"
  define x1 where "x1 = push_bit 6 acc' + v1"
  define x2 where "x2 = push_bit 6 x1 + v2"
  define x3 where "x3 = push_bit 6 x2 + v3"
  define x4 where "x4 = push_bit 6 x3 + v4"
  define tl_text where "tl_text = to_base64_text a3 xs @ rest"
  define buf3 where "buf3 = buf[len := b1, Suc len := b2, Suc (Suc len) := b3]"
  have v: "v1 < 64" "v2 < 64" "v3 < 64" "v4 < 64"
    by (simp_all only: v1_def v2_def v3_def v4_def and_3F_less)
  from "1.prems" have l: "len < cap" "Suc len < cap" "Suc (Suc len) < cap"
    and l3: "Suc (Suc (Suc len)) \<le> length buf"
    and ih_pre: "Suc (Suc (Suc len)) + length xs \<le> cap"
    by simp_all
  have bytes: "ucast (drop_bit 4 x2 AND 0xFF) = b1" "ucast (drop_bit 2 x3 AND 0xFF) = b2"
    "ucast (x4 AND 0xFF) = b3"
    unfolding x1_def x2_def x3_def x4_def v1_def v2_def v3_def v4_def a1_def a2_def a3_def
    by (rule group_bytes)+
  have enc: "to_base64_text acc (b1 # b2 # b3 # xs) @ rest =
      int_to_char (b64_byte_to_char v1) # int_to_char (b64_byte_to_char v2)
      # int_to_char (b64_byte_to_char v3) # int_to_char (b64_byte_to_char v4) # tl_text"
    by (simp add: to_base64_text_3 v1_def v2_def v3_def v4_def a1_def a2_def a3_def tl_text_def)
  have "from_base64_loop buf cap len acc' 0 (to_base64_text acc (b1 # b2 # b3 # xs) @ rest)
        = from_base64_loop buf3 cap (Suc (Suc (Suc len))) x4 0 tl_text"
    unfolding enc
    by (simp only: from_base64_step0 [OF v(1)] from_base64_step6 [OF v(2) l(1)]
          from_base64_step4 [OF v(3) l(2)] from_base64_step2 [OF v(4) l(3)]
          x1_def [symmetric] x2_def [symmetric] x3_def [symmetric] x4_def [symmetric]
          bytes buf3_def)
  moreover from "1.IH" [of "Suc (Suc (Suc len))" buf3 x4 a3] ih_pre "1.prems"(2)
  obtain accf alf where
    "from_base64_loop buf3 cap (Suc (Suc (Suc len))) x4 0 tl_text
       = (take (Suc (Suc (Suc len))) buf3 @ xs @ drop (Suc (Suc (Suc len)) + length xs) buf3,
          Suc (Suc (Suc len)) + length xs, Some (accf, alf, rest))"
    "alf \<le> 4" "accf AND (push_bit alf 1 - 1) = 0"
    by (auto simp: tl_text_def buf3_def)
  moreover have "take (Suc (Suc (Suc len))) buf3 = take len buf @ [b1, b2, b3]"
    unfolding buf3_def using l3 by (rule take_update3)
  moreover have "drop (Suc (Suc (Suc len)) + length xs) buf3
                 = drop (Suc (Suc (Suc len)) + length xs) buf"
    by (simp add: buf3_def)
  ultimately show ?case by simp
next
  case 2
  have "from_base64_loop buf cap len acc' 0 rest = (buf, len, Some (acc', 0, rest))"
    using rest by (rule from_base64_stop)
  then show ?case by (simp add: to_base64_text_0)
next
  case (3 b1)
  define a1 where "a1 = push_bit 8 acc + ucast b1"
  define v1 where "v1 = drop_bit 2 a1 AND 0x3F"
  define v2 where "v2 = push_bit 4 a1 AND 0x3F"
  define x1 where "x1 = push_bit 6 acc' + v1"
  define x2 where "x2 = push_bit 6 x1 + v2"
  have v: "v1 < 64" "v2 < 64"
    by (simp_all only: v1_def v2_def and_3F_less)
  from "3.prems" have l: "len < cap" and l1: "Suc len \<le> length buf" by simp_all
  have bytes: "ucast (drop_bit 4 x2 AND 0xFF) = b1" "x2 AND 15 = 0"
    unfolding x1_def x2_def v1_def v2_def a1_def
    by (rule group_bytes_1)+
  have enc: "to_base64_text acc [b1] @ rest =
      int_to_char (b64_byte_to_char v1) # int_to_char (b64_byte_to_char v2) # rest"
    by (simp add: to_base64_text_1 v1_def v2_def a1_def)
  have "from_base64_loop buf cap len acc' 0 (to_base64_text acc [b1] @ rest)
        = from_base64_loop (buf[len := b1]) cap (Suc len) x2 4 rest"
    unfolding enc
    by (simp only: from_base64_step0 [OF v(1)] from_base64_step6 [OF v(2) l]
          x1_def [symmetric] x2_def [symmetric] bytes)
  also have "\<dots> = (buf[len := b1], Suc len, Some (x2, 4, rest))"
    using rest by (rule from_base64_stop)
  finally show ?case using bytes(2) l1 by (simp add: update1_eq)
next
  case (4 b1 b2)
  define a1 where "a1 = push_bit 8 acc + ucast b1"
  define a2 where "a2 = push_bit 8 a1 + ucast b2"
  define v1 where "v1 = drop_bit 2 a1 AND 0x3F"
  define v2 where "v2 = drop_bit 4 a2 AND 0x3F"
  define v3 where "v3 = push_bit 2 a2 AND 0x3F"
  define x1 where "x1 = push_bit 6 acc' + v1"
  define x2 where "x2 = push_bit 6 x1 + v2"
  define x3 where "x3 = push_bit 6 x2 + v3"
  have v: "v1 < 64" "v2 < 64" "v3 < 64"
    by (simp_all only: v1_def v2_def v3_def and_3F_less)
  from "4.prems" have l: "len < cap" "Suc len < cap" and l2: "Suc (Suc len) \<le> length buf"
    by simp_all
  have bytes: "ucast (drop_bit 4 x2 AND 0xFF) = b1" "ucast (drop_bit 2 x3 AND 0xFF) = b2"
    "x3 AND 3 = 0"
    unfolding x1_def x2_def x3_def v1_def v2_def v3_def a1_def a2_def
    by (rule group_bytes_2)+
  have enc: "to_base64_text acc [b1, b2] @ rest =
      int_to_char (b64_byte_to_char v1) # int_to_char (b64_byte_to_char v2)
      # int_to_char (b64_byte_to_char v3) # rest"
    by (simp add: to_base64_text_2 v1_def v2_def v3_def a1_def a2_def)
  have "from_base64_loop buf cap len acc' 0 (to_base64_text acc [b1, b2] @ rest)
        = from_base64_loop (buf[len := b1, Suc len := b2]) cap (Suc (Suc len)) x3 2 rest"
    unfolding enc
    by (simp only: from_base64_step0 [OF v(1)] from_base64_step6 [OF v(2) l(1)]
          from_base64_step4 [OF v(3) l(2)]
          x1_def [symmetric] x2_def [symmetric] x3_def [symmetric] bytes)
  also have "\<dots> = (buf[len := b1, Suc len := b2], Suc (Suc len), Some (x3, 2, rest))"
    using rest by (rule from_base64_stop)
  finally show ?case using bytes(3) l2 by (simp add: update2_eq)
qed

lemma from_base64_to_base64:
  assumes "length bs \<le> cap" and "cap \<le> length buf"
    and "rest = [] \<or> b64_char_to_byte (char_to_int (hd rest)) = 0xFF"
  shows "from_base64 buf cap (to_base64_text 0 bs @ rest)
         = (bs @ drop (length bs) buf, length bs, Some rest)"
proof -
  from roundtrip_loop [OF assms(3), of 0 bs cap buf 0 0] assms(1,2)
  obtain accf alf where
    "from_base64_loop buf cap 0 0 0 (to_base64_text 0 bs @ rest)
       = (bs @ drop (length bs) buf, length bs, Some (accf, alf, rest))"
    "alf \<le> 4" "accf AND (push_bit alf 1 - 1) = 0"
    by auto
  then show ?thesis by (simp add: from_base64_def)
qed

text \<open>
  Claim C5. For every byte sequence \<open>b\<close> (of any length, in particular of length 0 to 64),
  \<^verbatim>\<open>to_base64\<close> succeeds when the buffer is larger than the encoded length, and
  \<^verbatim>\<open>from_base64\<close> on the text it wrote, with a capacity of at least the length of \<open>b\<close>,
  succeeds, stores exactly the bytes \<open>b\<close> at the start of the destination, sets
  \<^verbatim>\<open>*dst_len\<close> to the length of \<open>b\<close> and returns the pointer to the end of the text.
\<close>

theorem base64_roundtrip:
  assumes "b64_length (length b) < dst_len" and "length b \<le> cap" and "cap \<le> length dst"
  shows "\<exists>text. to_base64 dst_len b = Some (length text, text)
           \<and> from_base64 dst cap text = (b @ drop (length b) dst, length b, Some [])"
proof -
  from assms(1) have "to_base64 dst_len b = Some (length (to_base64_text 0 b), to_base64_text 0 b)"
    by (simp add: to_base64_eq to_base64_text_length)
  moreover from from_base64_to_base64 [OF assms(2,3), of "[]"]
  have "from_base64 dst cap (to_base64_text 0 b) = (b @ drop (length b) dst, length b, Some [])"
    by simp
  ultimately show ?thesis by blast
qed

theorem base64_roundtrip_witness:
  "b64_length (length [1, 2, 3, 4, 5 :: uchar]) < 100
   \<and> to_base64 100 [1, 2, 3, 4, 5] = Some (7, ''AQIDBAU'')
   \<and> from_base64 (replicate 8 0) 8 ''AQIDBAU'' = ([1, 2, 3, 4, 5, 0, 0, 0], 5, Some [])"
proof -
  have a: "b64_length (length [1, 2, 3, 4, 5 :: uchar]) < 100"
    by (simp add: b64_length_def)
  have e: "to_base64 100 [1, 2, 3, 4, 5] = Some (7, ''AQIDBAU'')"
    by (simp add: to_base64_eq b64_length_def to_base64_text_3 to_base64_text_2
          to_base64_text_0 b64_byte_to_char_def EQ_def GT_def GE_def LT_def LE_def
          int_to_char_def char_of_eq_iff)
  from base64_roundtrip [of "[1, 2, 3, 4, 5]" 100 8 "replicate 8 0"] a e
  show ?thesis by (simp add: numeral_3_eq_3)
qed

section \<open>Decoding hash strings: range checks\<close>

lemmas decode_eval_defs =
  decode_header_defs decode_keyid_def decode_data_def
  decode_salt_def decode_output_def from_base64_def

text \<open>The test \<^verbatim>\<open>(x >> 30) > 3\<close> is the comparison with \<open>2^32 - 1\<close>.\<close>

lemma shift_check: "(drop_bit 30 (x::ulong) > 3) = (unat x > 2 ^ 32 - 1)"
proof -
  have "unat (drop_bit 30 x) = unat x div 2 ^ 30"
    by (simp add: drop_bit_eq_div unat_div)
  moreover have "(3 < unat x div 2 ^ 30) = (2 ^ 32 - 1 < unat x)"
    by simp arith
  ultimately show ?thesis
    by (simp add: word_less_nat_alt)
qed

text \<open>The stages after the range checks do not assign \<open>m\<close>, \<open>t\<close> or \<open>p\<close>.\<close>

lemma decode_output_mtp:
  "m (snd (decode_output pp str)) = m pp \<and> t (snd (decode_output pp str)) = t pp
   \<and> p (snd (decode_output pp str)) = p pp"
  by (simp add: decode_output_def Let_def split: option.splits prod.splits)

lemma decode_salt_mtp:
  "m (snd (decode_salt pp str)) = m pp \<and> t (snd (decode_salt pp str)) = t pp
   \<and> p (snd (decode_salt pp str)) = p pp"
  by (simp add: decode_salt_def decode_output_mtp Let_def split: option.splits prod.splits)

lemma decode_data_mtp:
  "m (snd (decode_data pp str)) = m pp \<and> t (snd (decode_data pp str)) = t pp
   \<and> p (snd (decode_data pp str)) = p pp"
  by (simp add: decode_data_def decode_salt_mtp Let_def split: option.splits prod.splits)

lemma decode_keyid_mtp:
  "m (snd (decode_keyid pp str)) = m pp \<and> t (snd (decode_keyid pp str)) = t pp
   \<and> p (snd (decode_keyid pp str)) = p pp"
  by (simp add: decode_keyid_def decode_data_mtp Let_def split: option.splits prod.splits)

lemma push_bit_3_p: "unat (x::ulong) \<le> 255 \<Longrightarrow> unat (push_bit 3 x) = 8 * unat x"
  by (simp add: push_bit_eq_mult unat_word_ariths)

lemma decode_check_ranges:
  assumes "fst (decode_check pp str) \<noteq> 0"
  shows "1 \<le> unat (m pp) \<and> unat (m pp) \<le> 2 ^ 32 - 1
         \<and> 1 \<le> unat (t pp) \<and> unat (t pp) \<le> 2 ^ 32 - 1
         \<and> 1 \<le> unat (p pp) \<and> unat (p pp) \<le> 255
         \<and> 8 * unat (p pp) \<le> unat (m pp)"
proof -
  from assms have a: "\<not> m pp < 1" "\<not> drop_bit 30 (m pp) > 3" "\<not> t pp < 1"
    "\<not> drop_bit 30 (t pp) > 3" "\<not> p pp < 1" "\<not> p pp > 255" "\<not> m pp < push_bit 3 (p pp)"
    by (auto simp: decode_check_def split: if_splits)
  from a(6) have p255: "unat (p pp) \<le> 255" by (simp add: word_less_nat_alt)
  from a(7) have "unat (push_bit 3 (p pp)) \<le> unat (m pp)"
    by (simp add: word_less_nat_alt)
  with p255 have "8 * unat (p pp) \<le> unat (m pp)" by (simp add: push_bit_3_p)
  moreover from a(1,3,5) have "1 \<le> unat (m pp)" "1 \<le> unat (t pp)" "1 \<le> unat (p pp)"
    by (simp_all add: word_less_nat_alt)
  moreover from a(2,4) have "unat (m pp) \<le> 2 ^ 32 - 1" "unat (t pp) \<le> 2 ^ 32 - 1"
    by (simp_all add: shift_check)
  ultimately show ?thesis using p255 by simp
qed

lemma decode_check_mtp:
  "m (snd (decode_check pp str)) = m pp \<and> t (snd (decode_check pp str)) = t pp
   \<and> p (snd (decode_check pp str)) = p pp"
  by (simp add: decode_check_def decode_keyid_mtp)

lemma decode_string_cases:
  "fst (argon2i_decode_string pp0 s) = 0 \<or>
   (\<exists>pp str. argon2i_decode_string pp0 s = decode_check pp str)"
  by (auto simp: argon2i_decode_string_def Let_def split: option.splits prod.splits)

lemma decode_string_ranges:
  assumes "fst (argon2i_decode_string pp0 s) \<noteq> 0"
  shows "1 \<le> unat (m (snd (argon2i_decode_string pp0 s)))
         \<and> unat (m (snd (argon2i_decode_string pp0 s))) \<le> 2 ^ 32 - 1
         \<and> 1 \<le> unat (t (snd (argon2i_decode_string pp0 s)))
         \<and> unat (t (snd (argon2i_decode_string pp0 s))) \<le> 2 ^ 32 - 1
         \<and> 1 \<le> unat (p (snd (argon2i_decode_string pp0 s)))
         \<and> unat (p (snd (argon2i_decode_string pp0 s))) \<le> 255
         \<and> 8 * unat (p (snd (argon2i_decode_string pp0 s)))
             \<le> unat (m (snd (argon2i_decode_string pp0 s)))"
proof -
  from assms decode_string_cases [of pp0 s]
  obtain pp str where e: "argon2i_decode_string pp0 s = decode_check pp str" by auto
  with assms have "fst (decode_check pp str) \<noteq> 0" by simp
  from decode_check_ranges [OF this] show ?thesis
    by (simp add: e decode_check_mtp)
qed

text \<open>A literal at the start of a string is consumed.\<close>

lemma CC_append: "CC prefix (prefix @ rest) = Some rest"
  by (simp add: CC_def)

text \<open>A numeric field of the input: a string of digits that ends where the digits end.\<close>

lemma decode_decimal_digits:
  assumes "\<forall>c \<in> set ds. is_digit c" and "rest = [] \<or> \<not> is_digit (hd rest)"
  shows "decode_decimal (ds @ rest) = None
         \<or> decode_decimal (ds @ rest) = Some (word_of_nat (dec_value ds), rest)
           \<and> unat (word_of_nat (dec_value ds) :: ulong) = dec_value ds"
proof -
  from assms(2) have r: "takeWhile is_digit rest = []" "dropWhile is_digit rest = rest"
    by (cases rest; auto)+
  have tw: "takeWhile is_digit (ds @ rest) = ds"
    using assms(1) by (simp add: takeWhile_append2 r)
  have dw: "dropWhile is_digit (ds @ rest) = rest"
    using assms(1) by (simp add: dropWhile_append2 r)
  show ?thesis
  proof (cases "dec_value ds \<le> unat ULONG_MAX")
    case False
    then show ?thesis by (simp add: decode_decimal_value tw)
  next
    case True
    then have "unat (word_of_nat (dec_value ds) :: ulong) = dec_value ds"
      by (simp add: unat_of_nat unat_ULONG_MAX)
    then show ?thesis by (simp add: decode_decimal_value tw dw)
  qed
qed

lemma not_digit_comma: "\<not> is_digit (CHR '','')"
  by (simp add: is_digit_def char_to_int_def)

text \<open>
  An input whose three numeric fields are the digit strings \<open>dm\<close>, \<open>dt\<close> and \<open>dp\<close> is
  rejected when the numbers that the fields denote violate a range.
\<close>

lemma decode_fields_reject:
  assumes dm: "\<forall>c \<in> set dm. is_digit c" and dt: "\<forall>c \<in> set dt. is_digit c"
    and dp: "\<forall>c \<in> set dp. is_digit c"
    and rest: "rest = [] \<or> \<not> is_digit (hd rest)"
    and bad: "\<not> (1 \<le> dec_value dm \<and> dec_value dm \<le> 2 ^ 32 - 1
                \<and> 1 \<le> dec_value dt \<and> dec_value dt \<le> 2 ^ 32 - 1
                \<and> 1 \<le> dec_value dp \<and> dec_value dp \<le> 255
                \<and> 8 * dec_value dp \<le> dec_value dm)"
  shows "fst (argon2i_decode_string pp0
               (''$argon2i$m='' @ dm @ '',t='' @ dt @ '',p='' @ dp @ rest)) = 0"
proof -
  let ?r2 = "'',p='' @ dp @ rest"
  let ?r1 = "'',t='' @ dt @ ?r2"
  have s0: "''$argon2i$m='' @ dm @ '',t='' @ dt @ '',p='' @ dp @ rest
            = ''$argon2i'' @ ''$m='' @ dm @ ?r1"
    by simp
  have a1: "decode_decimal (dm @ ?r1) = None
            \<or> decode_decimal (dm @ ?r1) = Some (word_of_nat (dec_value dm), ?r1)
              \<and> unat (word_of_nat (dec_value dm) :: ulong) = dec_value dm"
    using dm by (rule decode_decimal_digits) (simp add: not_digit_comma)
  have a2: "decode_decimal (dt @ ?r2) = None
            \<or> decode_decimal (dt @ ?r2) = Some (word_of_nat (dec_value dt), ?r2)
              \<and> unat (word_of_nat (dec_value dt) :: ulong) = dec_value dt"
    using dt by (rule decode_decimal_digits) (simp add: not_digit_comma)
  have a3: "decode_decimal (dp @ rest) = None
            \<or> decode_decimal (dp @ rest) = Some (word_of_nat (dec_value dp), rest)
              \<and> unat (word_of_nat (dec_value dp) :: ulong) = dec_value dp"
    using dp rest by (rule decode_decimal_digits)
  show ?thesis
  proof (cases "decode_decimal (dm @ ?r1) = None")
    case True
    show ?thesis
      unfolding argon2i_decode_string_def s0
      by (simp only: CC_append True Let_def option.case fst_conv)
  next
    case False
    with a1 have d1: "decode_decimal (dm @ ?r1) = Some (word_of_nat (dec_value dm), ?r1)"
      and u1: "unat (word_of_nat (dec_value dm) :: ulong) = dec_value dm"
      by blast+
    show ?thesis
    proof (cases "decode_decimal (dt @ ?r2) = None")
      case True
      show ?thesis
        unfolding argon2i_decode_string_def s0
        by (simp only: CC_append d1 True Let_def option.case prod.case fst_conv)
    next
      case False
      with a2 have d2: "decode_decimal (dt @ ?r2) = Some (word_of_nat (dec_value dt), ?r2)"
        and u2: "unat (word_of_nat (dec_value dt) :: ulong) = dec_value dt"
        by blast+
      show ?thesis
      proof (cases "decode_decimal (dp @ rest) = None")
        case True
        show ?thesis
          unfolding argon2i_decode_string_def s0
          by (simp only: CC_append d1 d2 True Let_def option.case prod.case fst_conv)
      next
        case False
        with a3 have d3: "decode_decimal (dp @ rest) = Some (word_of_nat (dec_value dp), rest)"
          and u3: "unat (word_of_nat (dec_value dp) :: ulong) = dec_value dp"
          by blast+
        let ?pp = "pp0\<lparr>key_id_len := 0, associated_data_len := 0, salt_len := 0,
                       output_len := 0, m := word_of_nat (dec_value dm),
                       t := word_of_nat (dec_value dt), p := word_of_nat (dec_value dp)\<rparr>"
        have e: "argon2i_decode_string pp0
                   (''$argon2i$m='' @ dm @ '',t='' @ dt @ '',p='' @ dp @ rest)
                 = decode_check ?pp rest"
          unfolding argon2i_decode_string_def s0
          by (simp only: CC_append d1 d2 d3 Let_def option.case prod.case)
        have "fst (decode_check ?pp rest) = 0"
        proof (rule ccontr)
          assume "fst (decode_check ?pp rest) \<noteq> 0"
          from decode_check_ranges [OF this] bad show False
            by (simp add: u1 u2 u3)
        qed
        with e show ?thesis by simp
      qed
    qed
  qed
qed

text \<open>
  Claim C3. \<^verbatim>\<open>argon2i_decode_string\<close> returns 0 for the strings with \<open>m=15,t=5000,p=2\<close>
  (\<open>m < 8 p\<close>), with \<open>p=0\<close>, with \<open>p=256\<close> (also when \<open>m\<close> is at least \<open>8 p\<close>), with
  \<open>t=4294967296\<close> and with \<open>t=0\<close>. The test \<^verbatim>\<open>(x >> 30) > 3\<close> holds exactly for the values
  above \<open>2^32 - 1\<close>. Every input whose three numeric fields are digit strings denoting
  numbers that violate one of \<open>1 \<le> m \<le> 2^32 - 1\<close>, \<open>1 \<le> t \<le> 2^32 - 1\<close>, \<open>1 \<le> p \<le> 255\<close>
  and \<open>8 p \<le> m\<close> is rejected, whatever follows the fields. Whenever the function does not
  return 0, the numbers it has stored obey these ranges.
\<close>

theorem decode_rejects_out_of_range:
  "fst (argon2i_decode_string pp0 ''$argon2i$m=15,t=5000,p=2'') = 0
   \<and> fst (argon2i_decode_string pp0 ''$argon2i$m=120,t=5000,p=0'') = 0
   \<and> fst (argon2i_decode_string pp0 ''$argon2i$m=2000,t=5000,p=256'') = 0
   \<and> fst (argon2i_decode_string pp0 ''$argon2i$m=4096,t=5000,p=256'') = 0
   \<and> fst (argon2i_decode_string pp0 ''$argon2i$m=120,t=4294967296,p=2'') = 0
   \<and> fst (argon2i_decode_string pp0 ''$argon2i$m=120,t=0,p=2'') = 0
   \<and> (drop_bit 30 (x::ulong) > 3) = (unat x > 2 ^ 32 - 1)
   \<and> ((\<forall>c \<in> set dm. is_digit c) \<and> (\<forall>c \<in> set dt. is_digit c) \<and> (\<forall>c \<in> set dp. is_digit c)
        \<and> (rest = [] \<or> \<not> is_digit (hd rest))
        \<and> \<not> (1 \<le> dec_value dm \<and> dec_value dm \<le> 2 ^ 32 - 1
              \<and> 1 \<le> dec_value dt \<and> dec_value dt \<le> 2 ^ 32 - 1
              \<and> 1 \<le> dec_value dp \<and> dec_value dp \<le> 255
              \<and> 8 * dec_value dp \<le> dec_value dm)
        \<longrightarrow> fst (argon2i_decode_string pp0
                    (''$argon2i$m='' @ dm @ '',t='' @ dt @ '',p='' @ dp @ rest)) = 0)
   \<and> (fst (argon2i_decode_string pp0 s) \<noteq> 0 \<longrightarrow>
        1 \<le> unat (m (snd (argon2i_decode_string pp0 s)))
        \<and> unat (m (snd (argon2i_decode_string pp0 s))) \<le> 2 ^ 32 - 1
        \<and> 1 \<le> unat (t (snd (argon2i_decode_string pp0 s)))
        \<and> unat (t (snd (argon2i_decode_string pp0 s))) \<le> 2 ^ 32 - 1
        \<and> 1 \<le> unat (p (snd (argon2i_decode_string pp0 s)))
        \<and> unat (p (snd (argon2i_decode_string pp0 s))) \<le> 255
        \<and> 8 * unat (p (snd (argon2i_decode_string pp0 s)))
            \<le> unat (m (snd (argon2i_decode_string pp0 s))))"
proof -
  have "fst (argon2i_decode_string pp0 ''$argon2i$m=15,t=5000,p=2'') = 0"
    by (simp add: decode_eval_defs)
  moreover have "fst (argon2i_decode_string pp0 ''$argon2i$m=120,t=5000,p=0'') = 0"
    by (simp add: decode_eval_defs)
  moreover have "fst (argon2i_decode_string pp0 ''$argon2i$m=2000,t=5000,p=256'') = 0"
    by (simp add: decode_eval_defs)
  moreover have "fst (argon2i_decode_string pp0 ''$argon2i$m=4096,t=5000,p=256'') = 0"
    by (simp add: decode_eval_defs)
  moreover have "fst (argon2i_decode_string pp0 ''$argon2i$m=120,t=4294967296,p=2'') = 0"
    by (simp add: decode_eval_defs)
  moreover have "fst (argon2i_decode_string pp0 ''$argon2i$m=120,t=0,p=2'') = 0"
    by (simp add: decode_eval_defs)
  moreover have "fst (argon2i_decode_string pp0
                    (''$argon2i$m='' @ dm @ '',t='' @ dt @ '',p='' @ dp @ rest)) = 0"
    if "(\<forall>c \<in> set dm. is_digit c) \<and> (\<forall>c \<in> set dt. is_digit c) \<and> (\<forall>c \<in> set dp. is_digit c)
        \<and> (rest = [] \<or> \<not> is_digit (hd rest))
        \<and> \<not> (1 \<le> dec_value dm \<and> dec_value dm \<le> 2 ^ 32 - 1
              \<and> 1 \<le> dec_value dt \<and> dec_value dt \<le> 2 ^ 32 - 1
              \<and> 1 \<le> dec_value dp \<and> dec_value dp \<le> 255
              \<and> 8 * dec_value dp \<le> dec_value dm)"
    using that by (intro decode_fields_reject) simp_all
  ultimately show ?thesis
    using shift_check [of x] decode_string_ranges [of pp0 s] by blast
qed

theorem decode_rejects_out_of_range_witness:
  "list_all is_digit ''4294967296'' \<and> dec_value ''4294967296'' = 4294967296
   \<and> dec_value ''120'' = 120 \<and> dec_value ''2'' = 2
   \<and> fst (argon2i_decode_string params0
            (''$argon2i$m='' @ ''120'' @ '',t='' @ ''4294967296'' @ '',p='' @ ''2'' @ ''$abc'')) = 0
   \<and> fst (argon2i_decode_string params0 ''$argon2i$m=120,t=5000,p=2'') = 1
   \<and> unat (m (snd (argon2i_decode_string params0 ''$argon2i$m=120,t=5000,p=2''))) = 120
   \<and> 8 * unat (p (snd (argon2i_decode_string params0 ''$argon2i$m=120,t=5000,p=2'')))
        \<le> unat (m (snd (argon2i_decode_string params0 ''$argon2i$m=120,t=5000,p=2'')))"
proof -
  have a: "fst (argon2i_decode_string params0 ''$argon2i$m=120,t=5000,p=2'') = 1"
    by (simp add: decode_eval_defs)
  have b: "unat (m (snd (argon2i_decode_string params0 ''$argon2i$m=120,t=5000,p=2''))) = 120"
    by (simp add: decode_eval_defs)
  from a have c: "fst (argon2i_decode_string params0 ''$argon2i$m=120,t=5000,p=2'') \<noteq> 0" by simp
  have d: "\<forall>c \<in> set ''120''. is_digit c" "\<forall>c \<in> set ''4294967296''. is_digit c"
    "\<forall>c \<in> set ''2''. is_digit c" "\<not> is_digit (hd ''$abc'')"
    by (simp_all add: is_digit_def char_to_int_def)
  have v: "dec_value ''120'' = 120" "dec_value ''4294967296'' = 4294967296" "dec_value ''2'' = 2"
    by (simp_all add: dec_value_def char_to_int_def)
  from v have bad: "\<not> (1 \<le> dec_value ''120'' \<and> dec_value ''120'' \<le> 2 ^ 32 - 1
              \<and> 1 \<le> dec_value ''4294967296'' \<and> dec_value ''4294967296'' \<le> 2 ^ 32 - 1
              \<and> 1 \<le> dec_value ''2'' \<and> dec_value ''2'' \<le> 255
              \<and> 8 * dec_value ''2'' \<le> dec_value ''120'')"
    by simp
  from d(2) have l: "list_all is_digit ''4294967296''" by (simp only: list_all_iff)
  from decode_rejects_out_of_range
         [of params0 0 "''120''" "''4294967296''" "''2''" "''$abc''" "''$argon2i$m=120,t=5000,p=2''"]
       a b c d v bad l
  show ?thesis by blast
qed

text \<open>
  Claim C9. The string that ends in \<^verbatim>\<open>,keyid=\<close> with no Base64 character behind it is
  accepted, with \<open>key_id_len = 0\<close>; the call leaves the structure exactly as the call
  for the string without that segment does. Encoding the structure again (into the 300
  characters of the test harness) gives the string without the segment, which differs
  from the input.
\<close>

theorem decode_empty_keyid:
  "fst (argon2i_decode_string pp0 ''$argon2i$m=120,t=5000,p=2,keyid='') = 1
   \<and> key_id_len (snd (argon2i_decode_string pp0 ''$argon2i$m=120,t=5000,p=2,keyid='')) = 0
   \<and> argon2i_decode_string pp0 ''$argon2i$m=120,t=5000,p=2,keyid=''
       = argon2i_decode_string pp0 ''$argon2i$m=120,t=5000,p=2''
   \<and> argon2i_encode_string 300 (snd (argon2i_decode_string pp0 ''$argon2i$m=120,t=5000,p=2,keyid=''))
       = Some ''$argon2i$m=120,t=5000,p=2''
   \<and> ''$argon2i$m=120,t=5000,p=2'' \<noteq> ''$argon2i$m=120,t=5000,p=2,keyid=''"
  by (simp add: decode_eval_defs argon2i_encode_string_def SS_def SX_def sprintf_lu_def dec_digits.simps
      char_of_eq_iff)

section \<open>Encoding hash strings\<close>

text \<open>
  The macros \<^verbatim>\<open>SS\<close> and \<^verbatim>\<open>SB\<close> append a text when more room than its length remains;
  a chain of them appends the concatenation of the texts.
\<close>

lemma SS_eq:
  "SS a st = (if length a < snd st then Some (fst st @ a, snd st - length a) else None)"
  by (cases st) (simp add: SS_def Let_def)

lemma SB_eq: "SB buf len st = SS (to_base64_text 0 (take len buf)) st"
  by (cases st) (simp add: SB_def SS_def to_base64_eq to_base64_text_length Let_def)

lemma SS_SS: "Option.bind (SS a st) (SS b) = SS (a @ b) st"
  by (auto simp: SS_eq)

lemma SS_SS_bind:
  "Option.bind (SS a st) (\<lambda>st. Option.bind (SS b st) k) = Option.bind (SS (a @ b) st) k"
proof -
  have "Option.bind (SS a st) (\<lambda>st. Option.bind (SS b st) k)
        = Option.bind (Option.bind (SS a st) (SS b)) k"
    by (cases "SS a st") simp_all
  then show ?thesis by (simp only: SS_SS)
qed

lemma SS_bind_cong:
  assumes "\<And>st'. 0 < snd st' \<Longrightarrow> f st' = g st'"
  shows "Option.bind (SS a st) f = Option.bind (SS a st) g"
  using assms by (auto simp: SS_eq)

text \<open>The optional segments, one step of the chain each.\<close>

lemma keyid_step:
  assumes "0 < snd st"
  shows "(if key_id_len pp > 0
          then Option.bind (SS '',keyid='' st) (SB (key_id pp) (key_id_len pp))
          else Some st)
         = SS (keyid_text pp) st"
  using assms by (cases st) (auto simp: SB_eq SS_SS SS_eq keyid_text_def key_id_bytes_def)

lemma data_step:
  assumes "0 < snd st"
  shows "(if associated_data_len pp > 0
          then Option.bind (SS '',data='' st)
                 (SB (associated_data pp) (associated_data_len pp))
          else Some st)
         = SS (data_text pp) st"
  using assms
  by (cases st) (auto simp: SB_eq SS_SS SS_eq data_text_def associated_data_bytes_def)

lemma output_step:
  assumes "0 < snd st"
  shows "(if output_len pp = 0 then Some (fst st)
          else Option.bind (SS ''$'' st) (\<lambda>st.
               Option.bind (SB (output' pp) (output_len pp) st) (\<lambda>st. Some (fst st))))
         = map_option fst
             (SS (if output_len pp = 0 then []
                  else ''$'' @ to_base64_text 0 (output_bytes pp)) st)"
  using assms by (cases st) (auto simp: SB_eq SS_eq output_bytes_def)

lemma salt_step:
  assumes "0 < snd st"
  shows "(if salt_len pp = 0 then Some (fst st)
          else Option.bind (SS ''$'' st) (\<lambda>st.
               Option.bind (SB (salt pp) (salt_len pp) st) (\<lambda>st.
               if output_len pp = 0 then Some (fst st)
               else Option.bind (SS ''$'' st) (\<lambda>st.
                    Option.bind (SB (output' pp) (output_len pp) st) (\<lambda>st.
                    Some (fst st))))))
         = map_option fst (SS (salt_text pp) st)"
proof (cases "salt_len pp = 0")
  case True
  with assms show ?thesis by (cases st) (simp add: salt_text_def SS_eq)
next
  case False
  let ?o = "if output_len pp = 0 then [] else ''$'' @ to_base64_text 0 (output_bytes pp)"
  have "Option.bind (SS ''$'' st) (\<lambda>st.
               Option.bind (SB (salt pp) (salt_len pp) st) (\<lambda>st.
               if output_len pp = 0 then Some (fst st)
               else Option.bind (SS ''$'' st) (\<lambda>st.
                    Option.bind (SB (output' pp) (output_len pp) st) (\<lambda>st.
                    Some (fst st)))))
        = Option.bind (SS (''$'' @ to_base64_text 0 (salt_bytes pp)) st) (\<lambda>st.
               if output_len pp = 0 then Some (fst st)
               else Option.bind (SS ''$'' st) (\<lambda>st.
                    Option.bind (SB (output' pp) (output_len pp) st) (\<lambda>st.
                    Some (fst st))))"
    by (simp only: SB_eq SS_SS_bind salt_bytes_def)
  also have "\<dots> = Option.bind (SS (''$'' @ to_base64_text 0 (salt_bytes pp)) st)
                    (\<lambda>st. map_option fst (SS ?o st))"
    by (rule SS_bind_cong) (rule output_step)
  also have "\<dots> = map_option fst
                    (Option.bind (SS (''$'' @ to_base64_text 0 (salt_bytes pp)) st) (SS ?o))"
    by (cases "SS (''$'' @ to_base64_text 0 (salt_bytes pp)) st") simp_all
  also have "\<dots> = map_option fst (SS ((''$'' @ to_base64_text 0 (salt_bytes pp)) @ ?o) st)"
    by (simp only: SS_SS)
  finally show ?thesis using False by (simp add: salt_text_def)
qed

text \<open>
  \<^verbatim>\<open>argon2i_encode_string\<close> produces the text of the structure when the destination has
  more room than the length of the text (one character more, for the terminating zero),
  and fails otherwise.
\<close>

lemma encode_eq:
  "argon2i_encode_string dst_len pp =
     (if length (encode_text pp) < dst_len then Some (encode_text pp) else None)"
proof -
  let ?h = "''$argon2i$m='' @ sprintf_lu (m pp) @ '',t='' @ sprintf_lu (t pp)
            @ '',p='' @ sprintf_lu (p pp)"
  let ?K = "\<lambda>st. if key_id_len pp > 0
          then Option.bind (SS '',keyid='' st) (SB (key_id pp) (key_id_len pp))
          else Some st"
  let ?D = "\<lambda>st. if associated_data_len pp > 0
          then Option.bind (SS '',data='' st)
                 (SB (associated_data pp) (associated_data_len pp))
          else Some st"
  let ?S = "\<lambda>st. if salt_len pp = 0 then Some (fst st)
          else Option.bind (SS ''$'' st) (\<lambda>st.
               Option.bind (SB (salt pp) (salt_len pp) st) (\<lambda>st.
               if output_len pp = 0 then Some (fst st)
               else Option.bind (SS ''$'' st) (\<lambda>st.
                    Option.bind (SB (output' pp) (output_len pp) st) (\<lambda>st.
                    Some (fst st)))))"
  have "argon2i_encode_string dst_len pp
        = Option.bind (SS ?h ([], dst_len)) (\<lambda>st.
            Option.bind (?K st) (\<lambda>st. Option.bind (?D st) ?S))"
    unfolding argon2i_encode_string_def SX_def
    by (simp only: SS_SS_bind append_assoc)
  also have "\<dots> = Option.bind (SS ?h ([], dst_len)) (\<lambda>st.
            Option.bind (SS (keyid_text pp) st) (\<lambda>st. Option.bind (?D st) ?S))"
    by (rule SS_bind_cong) (simp only: keyid_step)
  also have "\<dots> = Option.bind (SS (?h @ keyid_text pp) ([], dst_len))
                    (\<lambda>st. Option.bind (?D st) ?S)"
    by (simp only: SS_SS_bind)
  also have "\<dots> = Option.bind (SS (?h @ keyid_text pp) ([], dst_len))
                    (\<lambda>st. Option.bind (SS (data_text pp) st) ?S)"
    by (rule SS_bind_cong) (simp only: data_step)
  also have "\<dots> = Option.bind (SS ((?h @ keyid_text pp) @ data_text pp) ([], dst_len)) ?S"
    by (simp only: SS_SS_bind)
  also have "\<dots> = Option.bind (SS ((?h @ keyid_text pp) @ data_text pp) ([], dst_len))
                    (\<lambda>st. map_option fst (SS (salt_text pp) st))"
    by (rule SS_bind_cong) (rule salt_step)
  also have "\<dots> = map_option fst
       (Option.bind (SS ((?h @ keyid_text pp) @ data_text pp) ([], dst_len)) (SS (salt_text pp)))"
    by (cases "SS ((?h @ keyid_text pp) @ data_text pp) ([], dst_len)") simp_all
  also have "\<dots> = map_option fst
       (SS (((?h @ keyid_text pp) @ data_text pp) @ salt_text pp) ([], dst_len))"
    by (simp only: SS_SS)
  also have "((?h @ keyid_text pp) @ data_text pp) @ salt_text pp = encode_text pp"
    by (simp add: encode_text_def)
  finally show ?thesis by (simp add: SS_eq)
qed

section \<open>Decoding the text of a valid structure\<close>

text \<open>The characters that end a field are neither Base64 characters nor digits.\<close>

lemma peek_Nil: "peek [] = CHR 0x00"
  by (simp add: peek_def)

lemma store_Nil: "store [] buf = buf"
  by (simp add: store_def)

lemma not_b64_comma: "b64_char_to_byte (char_to_int (CHR '','')) = 0xFF"
  by (simp add: b64_char_to_byte_def char_to_int_def EQ_def GT_def GE_def LT_def LE_def)

lemma not_b64_dollar: "b64_char_to_byte (char_to_int (CHR ''$'')) = 0xFF"
  by (simp add: b64_char_to_byte_def char_to_int_def EQ_def GT_def GE_def LT_def LE_def)

lemma not_digit_dollar: "\<not> is_digit (CHR ''$'')"
  by (simp add: is_digit_def char_to_int_def)

text \<open>The byte sequences of a valid structure have the declared lengths.\<close>

lemma bytes_length:
  assumes "valid_params r"
  shows "length (key_id_bytes r) = key_id_len r"
    and "length (associated_data_bytes r) = associated_data_len r"
    and "length (salt_bytes r) = salt_len r"
    and "length (output_bytes r) = output_len r"
  using assms
  by (auto simp: valid_params_def array_sizes_def key_id_bytes_def associated_data_bytes_def
        salt_bytes_def output_bytes_def)

text \<open>The stages of the parser, from the last one to the first, on the text of a valid structure.\<close>

lemma decode_output_ok:
  assumes "length (output' pp) = 64" and "12 \<le> length ob" and "length ob \<le> 64"
  shows "decode_output pp (''$'' @ to_base64_text 0 ob)
         = (1, pp\<lparr>output' := store ob (output' pp), output_len := length ob\<rparr>)"
proof -
  have c: "CC ''$'' (''$'' @ to_base64_text 0 ob) = Some (to_base64_text 0 ob)"
    by (rule CC_append)
  from from_base64_to_base64 [of ob 64 "output' pp" "[]"] assms
  have f: "from_base64 (output' pp) 64 (to_base64_text 0 ob)
           = (store ob (output' pp), length ob, Some [])"
    by (simp add: store_def)
  from assms(2) show ?thesis
    by (simp add: decode_output_def c f peek_Nil Let_def del: append.simps)
qed

lemma decode_salt_ok:
  assumes v: "valid_params r" and a: "array_sizes pp"
    and z: "salt_len pp = 0" "output_len pp = 0"
  shows "decode_salt pp (salt_text r)
         = (1, pp\<lparr>salt := store (salt_bytes r) (salt pp), salt_len := salt_len r,
                  output' := store (output_bytes r) (output' pp), output_len := output_len r\<rparr>)"
proof (cases "salt_len r = 0")
  case True
  with v have "output_len r = 0" by (auto simp: valid_params_def)
  with True z show ?thesis
    by (simp add: decode_salt_def salt_text_def peek_Nil salt_bytes_def output_bytes_def
          store_Nil)
next
  case False
  with v have sl: "8 \<le> salt_len r" "salt_len r \<le> 48" by (auto simp: valid_params_def)
  from a have as: "length (salt pp) = 48" "length (output' pp) = 64"
    by (simp_all add: array_sizes_def)
  let ?o = "if output_len r = 0 then [] else ''$'' @ to_base64_text 0 (output_bytes r)"
  have st: "salt_text r = ''$'' @ to_base64_text 0 (salt_bytes r) @ ?o"
    using False by (simp add: salt_text_def)
  have pk: "peek (salt_text r) \<noteq> CHR 0x00"
    by (simp add: st peek_def)
  have c: "CC ''$'' (salt_text r) = Some (to_base64_text 0 (salt_bytes r) @ ?o)"
    unfolding st by (rule CC_append)
  have ro: "?o = [] \<or> b64_char_to_byte (char_to_int (hd ?o)) = 0xFF"
    by (simp add: not_b64_dollar)
  from from_base64_to_base64 [of "salt_bytes r" 48 "salt pp" ?o, OF _ _ ro] sl as
  have f: "from_base64 (salt pp) 48 (to_base64_text 0 (salt_bytes r) @ ?o)
           = (store (salt_bytes r) (salt pp), salt_len r, Some ?o)"
    by (simp add: store_def bytes_length [OF v])
  show ?thesis
  proof (cases "output_len r = 0")
    case True
    with sl z pk c f show ?thesis
      by (simp add: decode_salt_def peek_Nil Let_def output_bytes_def store_Nil)
  next
    case out: False
    with v have ol: "12 \<le> output_len r" "output_len r \<le> 64" by (auto simp: valid_params_def)
    have pk2: "peek ?o \<noteq> CHR 0x00" using out by (simp add: peek_def)
    have "decode_output (pp\<lparr>salt := store (salt_bytes r) (salt pp), salt_len := salt_len r\<rparr>) ?o
          = (1, pp\<lparr>salt := store (salt_bytes r) (salt pp), salt_len := salt_len r,
                   output' := store (output_bytes r) (output' pp),
                   output_len := output_len r\<rparr>)"
      using decode_output_ok [of "pp\<lparr>salt := store (salt_bytes r) (salt pp), salt_len := salt_len r\<rparr>"
              "output_bytes r"] out ol as
      by (simp add: bytes_length [OF v])
    with sl pk2 pk c f out show ?thesis
      by (simp add: decode_salt_def Let_def)
  qed
qed

lemma length_store: "length bs \<le> length buf \<Longrightarrow> length (store bs buf) = length buf"
  by (simp add: store_def)

lemma salt_text_hd: "salt_text r = [] \<or> hd (salt_text r) = CHR ''$''"
  by (simp add: salt_text_def)

lemma data_salt_text_hd:
  "data_text r @ salt_text r = [] \<or> hd (data_text r @ salt_text r) = CHR '',''
   \<or> hd (data_text r @ salt_text r) = CHR ''$''"
  using salt_text_hd [of r] by (auto simp: data_text_def)

lemma tail_text_hd:
  "keyid_text r @ data_text r @ salt_text r = []
   \<or> hd (keyid_text r @ data_text r @ salt_text r) = CHR '',''
   \<or> hd (keyid_text r @ data_text r @ salt_text r) = CHR ''$''"
  using data_salt_text_hd [of r] by (auto simp: keyid_text_def)

lemma CC_data_salt: "CC '',data='' (salt_text r) = None"
  using salt_text_hd [of r] by (cases "salt_text r") (auto simp: CC_def)

lemma CC_keyid_data:
  "CC '',keyid='' (data_text r @ salt_text r) = None"
proof (cases "associated_data_len r > 0")
  case True
  then show ?thesis by (simp add: data_text_def CC_def)
next
  case False
  then show ?thesis
    using salt_text_hd [of r] by (cases "salt_text r") (auto simp: data_text_def CC_def)
qed

lemma decode_data_ok:
  assumes v: "valid_params r" and a: "array_sizes pp"
    and z: "associated_data_len pp = 0" "salt_len pp = 0" "output_len pp = 0"
  shows "decode_data pp (data_text r @ salt_text r)
         = (1, pp\<lparr>associated_data := store (associated_data_bytes r) (associated_data pp),
                  associated_data_len := associated_data_len r,
                  salt := store (salt_bytes r) (salt pp), salt_len := salt_len r,
                  output' := store (output_bytes r) (output' pp), output_len := output_len r\<rparr>)"
proof (cases "associated_data_len r > 0")
  case False
  then have e: "data_text r = []" "associated_data_bytes r = []"
    by (simp_all add: data_text_def associated_data_bytes_def)
  from False z decode_salt_ok [OF v a z(2,3)] show ?thesis
    by (simp add: decode_data_def e CC_data_salt store_Nil)
next
  case True
  from v have dl: "associated_data_len r \<le> 32" by (simp add: valid_params_def)
  from a have al: "length (associated_data pp) = 32" by (simp add: array_sizes_def)
  let ?pp = "pp\<lparr>associated_data := store (associated_data_bytes r) (associated_data pp),
                 associated_data_len := associated_data_len r\<rparr>"
  have dt: "data_text r @ salt_text r
            = '',data='' @ to_base64_text 0 (associated_data_bytes r) @ salt_text r"
    using True by (simp add: data_text_def)
  have c: "CC '',data='' (data_text r @ salt_text r)
           = Some (to_base64_text 0 (associated_data_bytes r) @ salt_text r)"
    unfolding dt by (rule CC_append)
  have ro: "salt_text r = [] \<or> b64_char_to_byte (char_to_int (hd (salt_text r))) = 0xFF"
    using salt_text_hd [of r] by (auto simp: not_b64_dollar)
  from from_base64_to_base64 [of "associated_data_bytes r" 32 "associated_data pp" "salt_text r",
         OF _ _ ro] dl al
  have f: "from_base64 (associated_data pp) 32
             (to_base64_text 0 (associated_data_bytes r) @ salt_text r)
           = (store (associated_data_bytes r) (associated_data pp), associated_data_len r,
              Some (salt_text r))"
    by (simp add: store_def bytes_length [OF v])
  from a dl al have a': "array_sizes ?pp"
    by (simp add: array_sizes_def length_store bytes_length [OF v])
  from z have z': "salt_len ?pp = 0" "output_len ?pp = 0" by simp_all
  from decode_salt_ok [OF v a' z'] c f show ?thesis
    by (simp add: decode_data_def)
qed

lemma decode_keyid_ok:
  assumes v: "valid_params r" and a: "array_sizes pp"
    and z: "key_id_len pp = 0" "associated_data_len pp = 0" "salt_len pp = 0" "output_len pp = 0"
  shows "decode_keyid pp (keyid_text r @ data_text r @ salt_text r)
         = (1, pp\<lparr>key_id := store (key_id_bytes r) (key_id pp), key_id_len := key_id_len r,
                  associated_data := store (associated_data_bytes r) (associated_data pp),
                  associated_data_len := associated_data_len r,
                  salt := store (salt_bytes r) (salt pp), salt_len := salt_len r,
                  output' := store (output_bytes r) (output' pp), output_len := output_len r\<rparr>)"
proof (cases "key_id_len r > 0")
  case False
  then have e: "keyid_text r = []" "key_id_bytes r = []"
    by (simp_all add: keyid_text_def key_id_bytes_def)
  from False z decode_data_ok [OF v a z(2,3,4)] show ?thesis
    by (simp add: decode_keyid_def e CC_keyid_data store_Nil)
next
  case True
  from v have kl: "key_id_len r \<le> 8" by (simp add: valid_params_def)
  from a have al: "length (key_id pp) = 8" by (simp add: array_sizes_def)
  let ?pp = "pp\<lparr>key_id := store (key_id_bytes r) (key_id pp), key_id_len := key_id_len r\<rparr>"
  let ?rest = "data_text r @ salt_text r"
  have kt: "keyid_text r @ ?rest = '',keyid='' @ to_base64_text 0 (key_id_bytes r) @ ?rest"
    using True by (simp add: keyid_text_def)
  have c: "CC '',keyid='' (keyid_text r @ ?rest)
           = Some (to_base64_text 0 (key_id_bytes r) @ ?rest)"
    unfolding kt by (rule CC_append)
  have ro: "?rest = [] \<or> b64_char_to_byte (char_to_int (hd ?rest)) = 0xFF"
    using data_salt_text_hd [of r] by (auto simp: not_b64_dollar not_b64_comma)
  from from_base64_to_base64 [of "key_id_bytes r" 8 "key_id pp" ?rest, OF _ _ ro] kl al
  have f: "from_base64 (key_id pp) 8 (to_base64_text 0 (key_id_bytes r) @ ?rest)
           = (store (key_id_bytes r) (key_id pp), key_id_len r, Some ?rest)"
    by (simp add: store_def bytes_length [OF v])
  from a kl al have a': "array_sizes ?pp"
    by (simp add: array_sizes_def length_store bytes_length [OF v])
  from z have z': "associated_data_len ?pp = 0" "salt_len ?pp = 0" "output_len ?pp = 0"
    by simp_all
  from decode_data_ok [OF v a' z'] c f show ?thesis
    by (simp add: decode_keyid_def)
qed

lemma decode_check_ok:
  assumes "1 \<le> unat (m pp)" "unat (m pp) \<le> 2 ^ 32 - 1"
    "1 \<le> unat (t pp)" "unat (t pp) \<le> 2 ^ 32 - 1"
    "1 \<le> unat (p pp)" "unat (p pp) \<le> 255" "8 * unat (p pp) \<le> unat (m pp)"
  shows "decode_check pp str = decode_keyid pp str"
proof -
  from assms(1,3,5) have "\<not> m pp < 1" "\<not> t pp < 1" "\<not> p pp < 1"
    by (simp_all add: word_less_nat_alt)
  moreover from assms(2,4) have "\<not> drop_bit 30 (m pp) > 3" "\<not> drop_bit 30 (t pp) > 3"
    by (simp_all add: shift_check)
  moreover from assms(6) have "\<not> p pp > 255" by (simp add: word_less_nat_alt)
  moreover from assms(6,7) have "\<not> m pp < push_bit 3 (p pp)"
    by (simp add: word_less_nat_alt push_bit_3_p)
  ultimately show ?thesis by (simp add: decode_check_def)
qed

lemma decode_decimal_sprintf:
  assumes "rest = [] \<or> \<not> is_digit (hd rest)"
  shows "decode_decimal (sprintf_lu x @ rest) = Some (x, rest)"
proof -
  have "unat x \<le> unat ULONG_MAX"
    using unsigned_less [of x, where 'a = nat] by (simp add: unat_ULONG_MAX)
  from decode_decimal_dec_digits [OF this assms] show ?thesis
    by (simp add: sprintf_lu_def)
qed

text \<open>Decoding the text of a valid structure succeeds and stores the record.\<close>

lemma decode_encode_text:
  assumes v: "valid_params r" and a: "array_sizes pp0"
  shows "argon2i_decode_string pp0 (encode_text r) = (1, decoded pp0 r)"
proof -
  let ?tail = "keyid_text r @ data_text r @ salt_text r"
  let ?pp = "pp0\<lparr>key_id_len := 0, associated_data_len := 0, salt_len := 0, output_len := 0,
                m := m r, t := t r, p := p r\<rparr>"
  have s0: "encode_text r = ''$argon2i'' @ ''$m='' @ sprintf_lu (m r) @ '',t=''
              @ sprintf_lu (t r) @ '',p='' @ sprintf_lu (p r) @ ?tail"
    by (simp add: encode_text_def)
  have d1: "decode_decimal (sprintf_lu (m r) @ '',t='' @ sprintf_lu (t r) @ '',p=''
              @ sprintf_lu (p r) @ ?tail)
            = Some (m r, '',t='' @ sprintf_lu (t r) @ '',p='' @ sprintf_lu (p r) @ ?tail)"
    by (rule decode_decimal_sprintf) (simp add: not_digit_comma)
  have d2: "decode_decimal (sprintf_lu (t r) @ '',p='' @ sprintf_lu (p r) @ ?tail)
            = Some (t r, '',p='' @ sprintf_lu (p r) @ ?tail)"
    by (rule decode_decimal_sprintf) (simp add: not_digit_comma)
  have d3: "decode_decimal (sprintf_lu (p r) @ ?tail) = Some (p r, ?tail)"
    using tail_text_hd [of r]
    by (intro decode_decimal_sprintf) (auto simp: not_digit_comma not_digit_dollar)
  have hd: "argon2i_decode_string pp0 (encode_text r) = decode_check ?pp ?tail"
    unfolding argon2i_decode_string_def s0
    by (simp only: CC_append d1 d2 d3 Let_def option.case prod.case)
  from v have "decode_check ?pp ?tail = decode_keyid ?pp ?tail"
    by (intro decode_check_ok) (simp_all add: valid_params_def)
  also from a have "array_sizes ?pp" by (simp add: array_sizes_def)
  from decode_keyid_ok [OF v this] have "decode_keyid ?pp ?tail = (1, decoded pp0 r)"
    by (simp add: decoded_def)
  finally show ?thesis using hd by simp
qed

section \<open>The structure after a successful parse\<close>








section \<open>Round trip, boundary capacity and the outcome of a parse\<close>

lemma same_record_decoded:
  assumes "valid_params r"
  shows "same_record (decoded pp0 r) r"
  using bytes_length [OF assms]
  by (simp add: same_record_def decoded_def key_id_bytes_def associated_data_bytes_def
        salt_bytes_def output_bytes_def store_def)

lemma valid_params_decoded:
  assumes "valid_params r" and "array_sizes pp0"
  shows "valid_params (decoded pp0 r)"
  using assms bytes_length [OF assms(1)]
  by (auto simp: valid_params_def decoded_def array_sizes_def store_def)

text \<open>The structure of the example and its text, for the three shapes.\<close>

lemmas example_eval =
  encode_text_def keyid_text_def data_text_def salt_text_def key_id_bytes_def
  associated_data_bytes_def salt_bytes_def output_bytes_def example_params_def
  sprintf_lu_def dec_digits.simps to_base64_text_3 to_base64_text_2 to_base64_text_1
  to_base64_text_0 b64_byte_to_char_def EQ_def GT_def GE_def LT_def LE_def
  int_to_char_def char_of_eq_iff mask_eq_exp_minus_1

lemma example_text:
  "encode_text example_params
   = ''$argon2i$m=120,t=5000,p=2,keyid=Hj5+dsK0$/LtFjH5rVL8$EkCWX6pSTqWruiR0''"
  by (simp add: example_eval)

lemma example_text_salt:
  "encode_text (example_params\<lparr>output_len := 0\<rparr>)
   = ''$argon2i$m=120,t=5000,p=2,keyid=Hj5+dsK0$/LtFjH5rVL8''"
  by (simp add: example_eval)

lemma example_text_params:
  "encode_text (example_params\<lparr>salt_len := 0, output_len := 0\<rparr>)
   = ''$argon2i$m=120,t=5000,p=2,keyid=Hj5+dsK0''"
  by (simp add: example_eval)

lemma example_valid:
  "valid_params example_params"
  "valid_params (example_params\<lparr>output_len := 0\<rparr>)"
  "valid_params (example_params\<lparr>salt_len := 0, output_len := 0\<rparr>)"
  "array_sizes params0"
  by (simp_all add: valid_params_def array_sizes_def example_params_def params0_def)

text \<open>The lengths of the numbers and of the Base64 fields.\<close>

lemma dec_digits_length: "n < 10 ^ k \<Longrightarrow> 0 < k \<Longrightarrow> length (dec_digits n) \<le> k"
proof (induction k arbitrary: n)
  case 0
  then show ?case by simp
next
  case (Suc k)
  show ?case
  proof (cases "n < 10")
    case True
    then show ?thesis by (subst dec_digits.simps) simp
  next
    case False
    with Suc.prems(1) have k: "0 < k" by (cases k) simp_all
    from Suc.prems(1) have "n div 10 < 10 ^ k" by simp
    from Suc.IH [OF this k] False show ?thesis
      by (subst dec_digits.simps) simp
  qed
qed

lemma sprintf_lu_length:
  "unat x \<le> 2 ^ 32 - 1 \<Longrightarrow> length (sprintf_lu x) \<le> 10"
  "unat x \<le> 255 \<Longrightarrow> length (sprintf_lu x) \<le> 3"
proof -
  assume "unat x \<le> 2 ^ 32 - 1"
  then have "unat x < 10 ^ 10" by simp
  then show "length (sprintf_lu x) \<le> 10"
    unfolding sprintf_lu_def by (rule dec_digits_length) simp
next
  assume "unat x \<le> 255"
  then have "unat x < 10 ^ 3" by simp
  then show "length (sprintf_lu x) \<le> 3"
    unfolding sprintf_lu_def by (rule dec_digits_length) simp
qed

lemma b64_length_bound: "3 * b64_length n \<le> 4 * n + 2"
proof -
  define q where "q = n div 3"
  define r where "r = n mod 3"
  have n: "n = 3 * q + r" and r: "r < 3"
    by (simp_all add: q_def r_def)
  have "b64_length n = 4 * q + (if r = 2 then 3 else if r = 1 then 2 else 0)"
    by (simp add: b64_length_def q_def r_def)
  with n r show ?thesis by (simp split: if_splits)
qed

lemma b64_length_le:
  "n \<le> 8 \<Longrightarrow> b64_length n \<le> 11"
  "n \<le> 32 \<Longrightarrow> b64_length n \<le> 43"
  "n \<le> 48 \<Longrightarrow> b64_length n \<le> 64"
  "n \<le> 64 \<Longrightarrow> b64_length n \<le> 86"
  using b64_length_bound [of n] by simp_all

text \<open>The text of a valid structure has at most 259 characters.\<close>

lemma encode_text_length:
  assumes "valid_params r"
  shows "length (encode_text r) \<le> 259"
proof -
  from assms have v: "unat (m r) \<le> 2 ^ 32 - 1" "unat (t r) \<le> 2 ^ 32 - 1" "unat (p r) \<le> 255"
    "key_id_len r \<le> 8" "associated_data_len r \<le> 32" "salt_len r \<le> 48" "output_len r \<le> 64"
    by (auto simp: valid_params_def)
  note n = bytes_length [OF assms]
  have k: "length (keyid_text r) \<le> 18"
    using b64_length_le(1) [OF v(4)]
    by (simp add: keyid_text_def to_base64_text_length n)
  have d: "length (data_text r) \<le> 49"
    using b64_length_le(2) [OF v(5)]
    by (simp add: data_text_def to_base64_text_length n)
  have s: "length (salt_text r) \<le> 152"
    using b64_length_le(3) [OF v(6)] b64_length_le(4) [OF v(7)]
    by (simp add: salt_text_def to_base64_text_length n)
  from sprintf_lu_length(1) [OF v(1)] sprintf_lu_length(1) [OF v(2)]
    sprintf_lu_length(2) [OF v(3)] k d s
  show ?thesis by (simp add: encode_text_def)
qed

text \<open>
  Claim C1. For every structure \<open>r\<close> that satisfies the Data Model invariants, encoding
  into a destination of at least 260 characters (or of any size above the length of the
  text of \<open>r\<close>) succeeds and produces the text of \<open>r\<close>; decoding that text into any
  structure \<open>pp0\<close> returns 1 and leaves the numbers, the lengths and the byte sequences of
  \<open>r\<close> in it, which is a valid structure holding the same record as \<open>r\<close>. The statement
  covers the three shapes: \<open>salt_len = 0\<close>; \<open>salt_len > 0\<close> and \<open>output_len = 0\<close>; both
  present.
\<close>

theorem encode_decode_roundtrip:
  assumes "valid_params r" and "array_sizes pp0"
    and "260 \<le> cap \<or> length (encode_text r) < cap"
  shows "argon2i_encode_string cap r = Some (encode_text r)
         \<and> argon2i_decode_string pp0 (encode_text r) = (1, decoded pp0 r)
         \<and> same_record (decoded pp0 r) r
         \<and> valid_params (decoded pp0 r)"
proof -
  from assms(3) encode_text_length [OF assms(1)] have "length (encode_text r) < cap"
    by auto
  with assms(1,2) show ?thesis
    by (simp add: encode_eq decode_encode_text same_record_decoded valid_params_decoded)
qed

theorem encode_decode_roundtrip_witness:
  "valid_params example_params \<and> array_sizes params0
   \<and> argon2i_encode_string 260 example_params
       = Some ''$argon2i$m=120,t=5000,p=2,keyid=Hj5+dsK0$/LtFjH5rVL8$EkCWX6pSTqWruiR0''
   \<and> argon2i_decode_string params0
         ''$argon2i$m=120,t=5000,p=2,keyid=Hj5+dsK0$/LtFjH5rVL8$EkCWX6pSTqWruiR0''
       = (1, decoded params0 example_params)
   \<and> same_record (decoded params0 example_params) example_params
   \<and> argon2i_encode_string 260 (example_params\<lparr>output_len := 0\<rparr>)
       = Some ''$argon2i$m=120,t=5000,p=2,keyid=Hj5+dsK0$/LtFjH5rVL8''
   \<and> argon2i_decode_string params0 ''$argon2i$m=120,t=5000,p=2,keyid=Hj5+dsK0$/LtFjH5rVL8''
       = (1, decoded params0 (example_params\<lparr>output_len := 0\<rparr>))
   \<and> argon2i_encode_string 260 (example_params\<lparr>salt_len := 0, output_len := 0\<rparr>)
       = Some ''$argon2i$m=120,t=5000,p=2,keyid=Hj5+dsK0''
   \<and> argon2i_decode_string params0 ''$argon2i$m=120,t=5000,p=2,keyid=Hj5+dsK0''
       = (1, decoded params0 (example_params\<lparr>salt_len := 0, output_len := 0\<rparr>))"
proof -
  have l: "260 \<le> (260::nat) \<or> length (encode_text example_params) < 260"
    "260 \<le> (260::nat) \<or> length (encode_text (example_params\<lparr>output_len := 0\<rparr>)) < 260"
    "260 \<le> (260::nat)
     \<or> length (encode_text (example_params\<lparr>salt_len := 0, output_len := 0\<rparr>)) < 260"
    by simp_all
  from encode_decode_roundtrip [OF example_valid(1) example_valid(4) l(1)]
    encode_decode_roundtrip [OF example_valid(2) example_valid(4) l(2)]
    encode_decode_roundtrip [OF example_valid(3) example_valid(4) l(3)]
    example_valid(1,4)
  show ?thesis
    by (simp only: example_text example_text_salt example_text_params)
qed

text \<open>
  Claim C6. For every structure \<open>r\<close> that satisfies the Data Model invariants, and \<open>n\<close> the
  length of the string that \<^verbatim>\<open>argon2i_encode_string\<close> produces for \<open>r\<close> (with any
  capacity for which it succeeds), the call with capacity \<open>n + 1\<close> succeeds with the same
  string and the call with capacity \<open>n\<close> fails.
\<close>

theorem encode_boundary_capacity:
  assumes "valid_params r"
  shows "argon2i_encode_string (length (encode_text r) + 1) r = Some (encode_text r)
         \<and> argon2i_encode_string (length (encode_text r)) r = None
         \<and> (argon2i_encode_string cap r = Some s \<longrightarrow>
               s = encode_text r
               \<and> argon2i_encode_string (length s + 1) r = Some s
               \<and> argon2i_encode_string (length s) r = None)"
  by (auto simp: encode_eq split: if_splits)

theorem encode_boundary_capacity_witness:
  "valid_params example_params
   \<and> argon2i_encode_string 300 example_params
       = Some ''$argon2i$m=120,t=5000,p=2,keyid=Hj5+dsK0$/LtFjH5rVL8$EkCWX6pSTqWruiR0''
   \<and> length ''$argon2i$m=120,t=5000,p=2,keyid=Hj5+dsK0$/LtFjH5rVL8$EkCWX6pSTqWruiR0'' = 69
   \<and> argon2i_encode_string 70 example_params
       = Some ''$argon2i$m=120,t=5000,p=2,keyid=Hj5+dsK0$/LtFjH5rVL8$EkCWX6pSTqWruiR0''
   \<and> argon2i_encode_string 69 example_params = None"
proof -
  have l: "length (encode_text example_params) = 69"
    by (simp add: example_text)
  have e: "argon2i_encode_string 300 example_params = Some (encode_text example_params)"
    by (simp add: encode_eq l)
  from encode_boundary_capacity [OF example_valid(1), of 300 "encode_text example_params"] e
  have "argon2i_encode_string (69 + 1) example_params = Some (encode_text example_params)"
    "argon2i_encode_string 69 example_params = None"
    by (simp_all only: l)
  with e l example_valid(1) show ?thesis
    by (simp add: example_text)
qed




end
